theory Spec2Isabelle
  imports Complex_Main "HOL-Library.Multiset" "HOL-Library.Char_ord" "HOL-Library.List_Lexorder"
begin

section \<open>Errors\<close>

text \<open>
  The exceptions the two scripts can meet. \<open>ValueError\<close> carries its message,
  \<open>SystemExit\<close> the code given to \<open>sys.exit\<close>, and \<open>CollaboratorError\<close> stands for
  any \<open>Exception\<close> raised inside a call to the file system, the HTTP origin, the object
  store or the warehouse.
\<close>

datatype error = ValueError string | SystemExit nat | CollaboratorError

section \<open>Python string primitives\<close>

text \<open>
  Strings are lists of code points below 256. \<open>is_space\<close> is the white space that
  \<open>str.strip()\<close> removes among them: tab, line feed, vertical tab, form feed, carriage
  return, the four separators 0x1C to 0x1F, the blank, next line (0x85) and the
  no-break space (0xA0).
\<close>

definition is_space :: "char \<Rightarrow> bool" where
  "is_space c =
     (let n = (of_char c :: nat)
      in (9 \<le> n \<and> n \<le> 13) \<or> (28 \<le> n \<and> n \<le> 32) \<or> n = 133 \<or> n = 160)"

definition strip :: "string \<Rightarrow> string" where
  "strip s = rev (dropWhile is_space (rev (dropWhile is_space s)))"

text \<open>\<open>s.strip("/")\<close>: the same with the slash as the only stripped character.\<close>

definition strip_slash :: "string \<Rightarrow> string" where
  "strip_slash s =
     rev (dropWhile (\<lambda>c. c = CHR ''/'') (rev (dropWhile (\<lambda>c. c = CHR ''/'') s)))"

text \<open>\<open>s.split(sep)\<close> for a one-character separator: never an empty result.\<close>

fun split_on :: "char \<Rightarrow> string \<Rightarrow> string list" where
  "split_on sep [] = [[]]"
| "split_on sep (c # cs) =
     (if c = sep then [] # split_on sep cs
      else (c # hd (split_on sep cs)) # tl (split_on sep cs))"

text \<open>\<open>s.lower()\<close> on the ASCII letters; every other character is kept.\<close>

definition lower_char :: "char \<Rightarrow> char" where
  "lower_char c =
     (let n = (of_char c :: nat) in if 65 \<le> n \<and> n \<le> 90 then char_of (n + 32) else c)"

definition lower :: "string \<Rightarrow> string" where
  "lower s = map lower_char s"

definition is_digit :: "char \<Rightarrow> bool" where
  "is_digit c = (let n = (of_char c :: nat) in 48 \<le> n \<and> n \<le> 57)"

definition digit_val :: "char \<Rightarrow> nat" where
  "digit_val c = of_char c - 48"

definition digit_char :: "nat \<Rightarrow> char" where
  "digit_char n = char_of (48 + n)"

text \<open>
  The digits of \<open>int()\<close>: decimal digits, where a single underscore may stand between
  two digits. The accumulator holds the value read so far.
\<close>

fun digits_acc :: "nat \<Rightarrow> string \<Rightarrow> nat option" where
  "digits_acc acc [] = Some acc"
| "digits_acc acc (c # cs) =
     (if is_digit c then digits_acc (10 * acc + digit_val c) cs
      else if c = CHR ''_'' \<and> cs \<noteq> [] \<and> is_digit (hd cs) then digits_acc acc cs
      else None)"

definition parse_digits :: "string \<Rightarrow> nat option" where
  "parse_digits s =
     (case s of [] \<Rightarrow> None
      | c # cs \<Rightarrow> if is_digit c then digits_acc 0 s else None)"

text \<open>
  \<open>int(s)\<close> in base 10. The white space it skips at both ends is not that of
  \<open>strip\<close>: the separators 0x1C to 0x1F are not skipped. One sign is allowed, anything
  else than digits raises \<open>ValueError\<close>, and so does a literal with more digits than the
  limit of the interpreter, 4300 by default, where leading zeros count and underscores
  do not.
\<close>

definition is_int_space :: "char \<Rightarrow> bool" where
  "is_int_space c =
     (let n = (of_char c :: nat) in (9 \<le> n \<and> n \<le> 13) \<or> n = 32 \<or> n = 133 \<or> n = 160)"

definition int_strip :: "string \<Rightarrow> string" where
  "int_strip s = rev (dropWhile is_int_space (rev (dropWhile is_int_space s)))"

definition MAX_STR_DIGITS :: nat where
  "MAX_STR_DIGITS = 4300"

definition invalid_literal :: "error" where
  "invalid_literal = ValueError ''invalid literal for int() with base 10''"

definition digits_limit_exceeded :: "error" where
  "digits_limit_exceeded =
     ValueError ''Exceeds the limit (4300 digits) for integer string conversion''"

definition int_of_digits :: "string \<Rightarrow> error + nat" where
  "int_of_digits s =
     (case parse_digits s of
        None \<Rightarrow> Inl invalid_literal
      | Some n \<Rightarrow>
          if MAX_STR_DIGITS < length (filter is_digit s) then Inl digits_limit_exceeded
          else Inr n)"

definition python_int :: "string \<Rightarrow> error + int" where
  "python_int s =
     (case int_strip s of
        [] \<Rightarrow> Inl invalid_literal
      | c # cs \<Rightarrow>
          if c = CHR ''-'' then
            (case int_of_digits cs of Inl e \<Rightarrow> Inl e | Inr n \<Rightarrow> Inr (- int n))
          else if c = CHR ''+'' then
            (case int_of_digits cs of Inl e \<Rightarrow> Inl e | Inr n \<Rightarrow> Inr (int n))
          else
            (case int_of_digits (c # cs) of Inl e \<Rightarrow> Inl e | Inr n \<Rightarrow> Inr (int n)))"

text \<open>The decimal digits of a natural number, without leading zeros.\<close>

fun dec :: "nat \<Rightarrow> string" where
  "dec n = (if n < 10 then [digit_char n] else dec (n div 10) @ [digit_char (n mod 10)])"

declare dec.simps [simp del]

text \<open>\<open>f"{m:02d}"\<close>: the sign, then the digits padded with zeros to a width of two.\<close>

definition format_02d :: "int \<Rightarrow> string" where
  "format_02d m =
     (if m < 0 then CHR ''-'' # dec (nat (- m))
      else if m < 10 then CHR ''0'' # dec (nat m)
      else dec (nat m))"

section \<open>Helpers of \<open>load_taxi_to_gcs_bq.py\<close>\<close>

subsection \<open>\<open>chunked\<close>\<close>

text \<open>
  \<open>for i in range(0, len(lst), size): yield lst[i:i + size]\<close>. The loop over the
  indices \<open>i\<close> is \<open>chunked_from\<close>; \<open>range\<close> raises \<open>ValueError\<close> for a step of zero and is
  empty for a negative step.
\<close>

function chunked_from :: "nat \<Rightarrow> 'a list \<Rightarrow> nat \<Rightarrow> 'a list list" where
  "chunked_from i lst size' =
     (if size' = 0 \<or> length lst \<le> i then []
      else take size' (drop i lst) # chunked_from (i + size') lst size')"
  by pat_completeness auto
termination
  by (relation "measure (\<lambda>(i, lst, size'). length lst - i)") auto

declare chunked_from.simps [simp del]

definition chunked :: "'a list \<Rightarrow> int \<Rightarrow> error + 'a list list" where
  "chunked lst size' =
     (if size' = 0 then Inl (ValueError ''range() arg 3 must not be zero'')
      else if size' < 0 then Inr []
      else Inr (chunked_from 0 lst (nat size')))"

subsection \<open>\<open>get_partition_field\<close>\<close>

definition invalid_taxi_type :: "error" where
  "invalid_taxi_type =
     ValueError (''taxi_type must be '' @ [CHR 0x27] @ ''yellow'' @ [CHR 0x27] @ '' or ''
       @ [CHR 0x27] @ ''green'' @ [CHR 0x27])"

definition get_partition_field :: "string \<Rightarrow> error + string" where
  "get_partition_field taxi_type0 =
     (let taxi_type = lower taxi_type0 in
      if taxi_type = ''yellow'' then Inr ''tpep_dropoff_datetime''
      else if taxi_type = ''green'' then Inr ''lpep_dropoff_datetime''
      else Inl invalid_taxi_type)"

subsection \<open>\<open>months_from_args\<close>\<close>

text \<open>The \<open>for p in parts\<close> loop, with \<open>out\<close> as accumulator.\<close>

fun months_loop :: "string list \<Rightarrow> string list \<Rightarrow> error + string list" where
  "months_loop [] out = Inr out"
| "months_loop (p # ps) out =
     (case python_int p of
        Inl e \<Rightarrow> Inl e
      | Inr m \<Rightarrow>
          if m < 1 \<or> m > 12 then Inl (ValueError (''Invalid month: '' @ p))
          else months_loop ps (out @ [format_02d m]))"

definition months_from_args :: "string \<Rightarrow> error + string list" where
  "months_from_args months0 =
     (let months = strip months0 in
      if CHR ''-'' \<in> set months then
        (let start_s = takeWhile (\<lambda>c. c \<noteq> CHR ''-'') months;
             end_s = tl (dropWhile (\<lambda>c. c \<noteq> CHR ''-'') months)
         in case python_int start_s of
              Inl e \<Rightarrow> Inl e
            | Inr start \<Rightarrow>
                (case python_int end_s of
                   Inl e \<Rightarrow> Inl e
                 | Inr end' \<Rightarrow>
                     if start < 1 \<or> end' > 12 \<or> start > end' then
                       Inl (ValueError ''Invalid month range. Example: 1-6 or 01-06'')
                     else Inr (map format_02d [start..end'])))
      else
        (let parts = map strip (filter (\<lambda>p. strip p \<noteq> []) (split_on CHR '','' months))
         in months_loop parts []))"

subsection \<open>\<open>get_base_url\<close> and \<open>get_bq_schema\<close>\<close>

text \<open>\<open>str(n)\<close> for an integer, as an f-string prints it.\<close>

definition str_int :: "int \<Rightarrow> string" where
  "str_int n = (if n < 0 then CHR ''-'' # dec (nat (- n)) else dec (nat n))"

definition get_base_url :: "string \<Rightarrow> int \<Rightarrow> error + string" where
  "get_base_url taxi_type0 year =
     (let taxi_type = lower taxi_type0 in
      if taxi_type \<noteq> ''yellow'' \<and> taxi_type \<noteq> ''green'' then Inl invalid_taxi_type
      else Inr (''https://github.com/DataTalksClub/nyc-tlc-data/releases/download/''
                @ taxi_type @ ''/'' @ taxi_type @ ''_tripdata_'' @ str_int year @ ''-''))"

datatype SchemaField =
  SchemaField (name: string) (field_type: string) (description: string)

definition green_schema :: "SchemaField list" where
  "green_schema = [
       SchemaField ''VendorID'' ''STRING''
         ''A code indicating the LPEP provider that provided the record. 1= Creative Mobile Technologies, LLC; 2= VeriFone Inc.'',
       SchemaField ''lpep_pickup_datetime'' ''TIMESTAMP''
         ''The date and time when the meter was engaged'',
       SchemaField ''lpep_dropoff_datetime'' ''TIMESTAMP''
         ''The date and time when the meter was disengaged'',
       SchemaField ''store_and_fwd_flag'' ''STRING''
         ''Y= store and forward trip N= not a store and forward trip'',
       SchemaField ''RatecodeID'' ''STRING''
         ''The final rate code in effect at the end of the trip. 1= Standard rate 2=JFK 3=Newark 4=Nassau or Westchester 5=Negotiated fare 6=Group ride'',
       SchemaField ''PULocationID'' ''STRING''
         ''TLC Taxi Zone in which the taximeter was engaged'',
       SchemaField ''DOLocationID'' ''STRING''
         ''TLC Taxi Zone in which the taximeter was disengaged'',
       SchemaField ''passenger_count'' ''INT64''
         ''The number of passengers in the vehicle. This is a driver-entered value.'',
       SchemaField ''trip_distance'' ''NUMERIC''
         ''The elapsed trip distance in miles reported by the taximeter.'',
       SchemaField ''fare_amount'' ''NUMERIC''
         ''The time-and-distance fare calculated by the meter'',
       SchemaField ''extra'' ''NUMERIC''
         ''Miscellaneous extras and surcharges. Currently, this only includes the $0.50 and $1 rush hour and overnight charges'',
       SchemaField ''mta_tax'' ''NUMERIC''
         ''$0.50 MTA tax that is automatically triggered based on the metered rate in use'',
       SchemaField ''tip_amount'' ''NUMERIC''
         ''Tip amount. This field is automatically populated for credit card tips. Cash tips are not included.'',
       SchemaField ''tolls_amount'' ''NUMERIC''
         ''Total amount of all tolls paid in trip.'',
       SchemaField ''ehail_fee'' ''NUMERIC''
         '''',
       SchemaField ''improvement_surcharge'' ''NUMERIC''
         ''$0.30 improvement surcharge assessed on hailed trips at the flag drop. The improvement surcharge began being levied in 2015.'',
       SchemaField ''total_amount'' ''NUMERIC''
         ''The total amount charged to passengers. Does not include cash tips.'',
       SchemaField ''payment_type'' ''INT64''
         ''1= Credit card 2= Cash 3= No charge 4= Dispute 5= Unknown 6= Voided trip'',
       SchemaField ''trip_type'' ''STRING''
         ''1= Street-hail 2= Dispatch'',
       SchemaField ''congestion_surcharge'' ''NUMERIC''
         ''Congestion surcharge applied to trips in congested zones'']"

definition yellow_schema :: "SchemaField list" where
  "yellow_schema = [
       SchemaField ''VendorID'' ''STRING''
         ''A code indicating the LPEP provider that provided the record. 1= Creative Mobile Technologies, LLC; 2= VeriFone Inc.'',
       SchemaField ''tpep_pickup_datetime'' ''TIMESTAMP''
         ''The date and time when the meter was engaged'',
       SchemaField ''tpep_dropoff_datetime'' ''TIMESTAMP''
         ''The date and time when the meter was disengaged'',
       SchemaField ''passenger_count'' ''INT64''
         ''The number of passengers in the vehicle. This is a driver-entered value.'',
       SchemaField ''trip_distance'' ''NUMERIC''
         ''The elapsed trip distance in miles reported by the taximeter.'',
       SchemaField ''RatecodeID'' ''STRING''
         ''The final rate code in effect at the end of the trip. 1= Standard rate 2=JFK 3=Newark 4=Nassau or Westchester 5=Negotiated fare 6=Group ride'',
       SchemaField ''store_and_fwd_flag'' ''STRING''
         ''TRUE = store and forward trip, FALSE = not a store and forward trip'',
       SchemaField ''PULocationID'' ''STRING''
         ''TLC Taxi Zone in which the taximeter was engaged'',
       SchemaField ''DOLocationID'' ''STRING''
         ''TLC Taxi Zone in which the taximeter was disengaged'',
       SchemaField ''payment_type'' ''INT64''
         ''1= Credit card 2= Cash 3= No charge 4= Dispute 5= Unknown 6= Voided trip'',
       SchemaField ''fare_amount'' ''NUMERIC''
         ''The time-and-distance fare calculated by the meter'',
       SchemaField ''extra'' ''NUMERIC''
         ''Miscellaneous extras and surcharges.'',
       SchemaField ''mta_tax'' ''NUMERIC''
         ''$0.50 MTA tax that is automatically triggered based on the metered rate in use'',
       SchemaField ''tip_amount'' ''NUMERIC''
         ''Tip amount (credit card only). Cash tips are not included.'',
       SchemaField ''tolls_amount'' ''NUMERIC''
         ''Total amount of all tolls paid in trip.'',
       SchemaField ''improvement_surcharge'' ''NUMERIC''
         ''$0.30 improvement surcharge assessed on hailed trips at the flag drop.'',
       SchemaField ''total_amount'' ''NUMERIC''
         ''The total amount charged to passengers. Does not include cash tips.'',
       SchemaField ''congestion_surcharge'' ''NUMERIC''
         ''Congestion surcharge applied to trips in congested zones'']"

definition get_bq_schema :: "string \<Rightarrow> error + SchemaField list" where
  "get_bq_schema taxi_type0 =
     (let taxi_type = lower taxi_type0 in
      if taxi_type = ''green'' then Inr green_schema
      else if taxi_type = ''yellow'' then Inr yellow_schema
      else Inl invalid_taxi_type)"

section \<open>The world outside the scripts\<close>

text \<open>
  The scripts talk to the local file system, the HTTP origin, the object store and the
  warehouse. The world holds what the properties need of their state (the local files with
  their sizes, the blobs of the buckets) and, for every call that can fail, a script of
  replies: each call takes the next reply, and a call with no reply left succeeds. Every
  collaborator call is appended to \<open>calls\<close>, so that a run can be inspected afterwards.
  Messages printed to the terminal are not part of the world.
\<close>

datatype pause = DownloadSleep | UploadSleep | RetryBackoff

datatype call =
    BlobExists string string
  | UploadFromFilename string string string
  | OsRemove string
  | UrlRetrieve string string
  | LoadTableFromUri string string
  | Sleep pause

text \<open>
  An upload either stores the blob and returns, returns without the blob being there
  afterwards, raises with nothing stored, or raises after the blob was stored.
\<close>

datatype upload_reply = Stored | Lost | UploadRaises | StoredThenRaises

datatype fetch_reply = Fetched nat | FetchRaises

datatype lookup_reply = Found | NotFound | Forbidden | LookupRaises

record world =
  files :: "string \<rightharpoonup> nat"
  blobs :: "(string \<times> string) set"
  exists_script :: "bool list"
  upload_script :: "upload_reply list"
  remove_script :: "bool list"
  fetch_script :: "fetch_reply list"
  load_script :: "bool list"
  bucket_lookup :: lookup_reply
  bucket_in_project :: bool
  create_bucket_raises :: bool
  dataset_lookup :: lookup_reply
  create_dataset_raises :: bool
  client_project :: string
  calls :: "call list"

definition next_reply :: "'a \<Rightarrow> 'a list \<Rightarrow> 'a" where
  "next_reply dflt script = (case script of [] \<Rightarrow> dflt | r # _ \<Rightarrow> r)"

definition log_call :: "call \<Rightarrow> world \<Rightarrow> world" where
  "log_call c w = w\<lparr>calls := calls w @ [c]\<rparr>"

definition sleep :: "pause \<Rightarrow> world \<Rightarrow> world" where
  "sleep p w = log_call (Sleep p) w"

subsection \<open>Local files\<close>

definition os_path_exists :: "string \<Rightarrow> world \<Rightarrow> bool" where
  "os_path_exists path w = (files w path \<noteq> None)"

definition os_path_getsize :: "string \<Rightarrow> world \<Rightarrow> nat" where
  "os_path_getsize path w = (case files w path of None \<Rightarrow> 0 | Some n \<Rightarrow> n)"

text \<open>
  \<open>os.remove\<close> raises when the file is missing or when the script says so (a file in
  use, a directory without write permission); otherwise the file is gone.
\<close>

definition os_remove :: "string \<Rightarrow> world \<Rightarrow> (error + unit) \<times> world" where
  "os_remove path w =
     (let raises = next_reply False (remove_script w);
          w1 = log_call (OsRemove path) (w\<lparr>remove_script := tl (remove_script w)\<rparr>)
      in if files w path = None \<or> raises then (Inl CollaboratorError, w1)
         else (Inr (), w1\<lparr>files := (files w1)(path := None)\<rparr>))"

definition os_path_basename :: "string \<Rightarrow> string" where
  "os_path_basename path = rev (takeWhile (\<lambda>c. c \<noteq> CHR ''/'') (rev path))"

definition os_path_join :: "string \<Rightarrow> string \<Rightarrow> string" where
  "os_path_join a b =
     (if b \<noteq> [] \<and> hd b = CHR ''/'' then b
      else if a = [] \<or> last a = CHR ''/'' then a @ b
      else a @ ''/'' @ b)"

subsection \<open>HTTP origin, object store, warehouse\<close>

definition urlretrieve :: "string \<Rightarrow> string \<Rightarrow> world \<Rightarrow> (error + unit) \<times> world" where
  "urlretrieve url path w =
     (let reply = next_reply (Fetched 1) (fetch_script w);
          w1 = log_call (UrlRetrieve url path) (w\<lparr>fetch_script := tl (fetch_script w)\<rparr>)
      in case reply of
           Fetched n \<Rightarrow> (Inr (), w1\<lparr>files := (files w1)(path \<mapsto> n)\<rparr>)
         | FetchRaises \<Rightarrow> (Inl CollaboratorError, w1))"

definition blob_exists :: "string \<Rightarrow> string \<Rightarrow> world \<Rightarrow> (error + bool) \<times> world" where
  "blob_exists bucket blob_name w =
     (let raises = next_reply False (exists_script w);
          w1 = log_call (BlobExists bucket blob_name) (w\<lparr>exists_script := tl (exists_script w)\<rparr>)
      in if raises then (Inl CollaboratorError, w1)
         else (Inr ((bucket, blob_name) \<in> blobs w), w1))"

text \<open>\<open>blob.upload_from_filename\<close> raises at once when the local file is missing.\<close>

definition upload_from_filename ::
  "string \<Rightarrow> string \<Rightarrow> string \<Rightarrow> world \<Rightarrow> (error + unit) \<times> world" where
  "upload_from_filename bucket blob_name file_path w =
     (let reply = next_reply Stored (upload_script w);
          w1 = log_call (UploadFromFilename bucket blob_name file_path)
                 (w\<lparr>upload_script := tl (upload_script w)\<rparr>);
          w2 = w1\<lparr>blobs := insert (bucket, blob_name) (blobs w1)\<rparr>
      in if files w file_path = None then (Inl CollaboratorError, w1)
         else case reply of
                Stored \<Rightarrow> (Inr (), w2)
              | Lost \<Rightarrow> (Inr (), w1)
              | UploadRaises \<Rightarrow> (Inl CollaboratorError, w1)
              | StoredThenRaises \<Rightarrow> (Inl CollaboratorError, w2))"

definition load_table_from_uri :: "string \<Rightarrow> string \<Rightarrow> world \<Rightarrow> (error + unit) \<times> world" where
  "load_table_from_uri gcs_uri full_table w =
     (let raises = next_reply False (load_script w);
          w1 = log_call (LoadTableFromUri gcs_uri full_table)
                 (w\<lparr>load_script := tl (load_script w)\<rparr>)
      in if raises then (Inl CollaboratorError, w1) else (Inr (), w1))"

section \<open>The pipeline of \<open>load_taxi_to_gcs_bq.py\<close>\<close>

definition DOWNLOAD_DIR :: string where
  "DOWNLOAD_DIR = ''.''"

subsection \<open>Infra bootstrap\<close>

definition ensure_bucket :: "string \<Rightarrow> world \<Rightarrow> error + unit" where
  "ensure_bucket bucket_name w =
     (if bucket_name = [] \<or> strip bucket_name = [] then
        Inl (ValueError ''Bucket name is empty/invalid.'')
      else case bucket_lookup w of
             Found \<Rightarrow> Inr ()
           | NotFound \<Rightarrow> if create_bucket_raises w then Inl CollaboratorError else Inr ()
           | Forbidden \<Rightarrow> Inl (SystemExit 1)
           | LookupRaises \<Rightarrow> Inl CollaboratorError)"

definition ensure_bq_dataset :: "string \<Rightarrow> string \<Rightarrow> string \<Rightarrow> world \<Rightarrow> error + unit" where
  "ensure_bq_dataset project_id dataset_id location w =
     (case dataset_lookup w of
        Found \<Rightarrow> Inr ()
      | NotFound \<Rightarrow> if create_dataset_raises w then Inl CollaboratorError else Inr ()
      | Forbidden \<Rightarrow> Inl CollaboratorError
      | LookupRaises \<Rightarrow> Inl CollaboratorError)"

subsection \<open>\<open>safe_remove_local\<close>\<close>

text \<open>
  The body of the \<open>try\<close> first, then the function with its \<open>except Exception\<close>, which
  prints and returns.
\<close>

definition safe_remove_local_try :: "string \<Rightarrow> world \<Rightarrow> (error + unit) \<times> world" where
  "safe_remove_local_try file_path w =
     (if file_path \<noteq> [] \<and> os_path_exists file_path w then os_remove file_path w
      else (Inr (), w))"

definition safe_remove_local :: "string \<Rightarrow> world \<Rightarrow> (error + unit) \<times> world" where
  "safe_remove_local file_path w =
     (case safe_remove_local_try file_path w of
        (Inl e, w1) \<Rightarrow> (Inr (), w1)
      | (Inr u, w1) \<Rightarrow> (Inr (), w1))"

subsection \<open>\<open>download_file\<close>\<close>

definition download_file ::
  "string \<Rightarrow> int \<Rightarrow> string \<Rightarrow> world \<Rightarrow> (error + string option) \<times> world" where
  "download_file taxi_type year month w =
     (case get_base_url taxi_type year of
        Inl e \<Rightarrow> (Inl e, w)
      | Inr base_url \<Rightarrow>
          (let url = base_url @ month @ ''.csv.gz'';
               filename = taxi_type @ ''_tripdata_'' @ str_int year @ ''-'' @ month @ ''.csv.gz'';
               file_path = os_path_join DOWNLOAD_DIR filename
           in if os_path_exists file_path w \<and> os_path_getsize file_path w > 0 then
                (Inr (Some file_path), w)
              else
                (case urlretrieve url file_path w of
                   (Inl e, w1) \<Rightarrow> (Inr None, w1)
                 | (Inr u, w1) \<Rightarrow> (Inr (Some file_path), sleep DownloadSleep w1))))"

subsection \<open>\<open>upload_to_gcs\<close>\<close>

definition verify_gcs_upload :: "string \<Rightarrow> string \<Rightarrow> world \<Rightarrow> (error + bool) \<times> world" where
  "verify_gcs_upload bucket blob_name w = blob_exists bucket blob_name w"

definition gs_uri :: "string \<Rightarrow> string \<Rightarrow> string" where
  "gs_uri bucket_name blob_name = ''gs://'' @ bucket_name @ ''/'' @ blob_name"

text \<open>
  The body of the \<open>try\<close> of one attempt: \<open>Inr (Some uri)\<close> when it returns the URI,
  \<open>Inr None\<close> when it falls through after a failed verification, \<open>Inl\<close> when it raises.
\<close>

definition upload_try ::
  "string \<Rightarrow> string \<Rightarrow> string \<Rightarrow> world \<Rightarrow> (error + string option) \<times> world" where
  "upload_try file_path bucket_name blob_name w =
     (case verify_gcs_upload bucket_name blob_name w of
        (Inl e, w1) \<Rightarrow> (Inl e, w1)
      | (Inr True, w1) \<Rightarrow>
          (case safe_remove_local file_path w1 of
             (Inl e, w2) \<Rightarrow> (Inl e, w2)
           | (Inr u, w2) \<Rightarrow> (Inr (Some (gs_uri bucket_name blob_name)), w2))
      | (Inr False, w1) \<Rightarrow>
          (case upload_from_filename bucket_name blob_name file_path w1 of
             (Inl e, w2) \<Rightarrow> (Inl e, w2)
           | (Inr u, w2) \<Rightarrow>
               (case verify_gcs_upload bucket_name blob_name w2 of
                  (Inl e, w3) \<Rightarrow> (Inl e, w3)
                | (Inr True, w3) \<Rightarrow>
                    (case safe_remove_local file_path (sleep UploadSleep w3) of
                       (Inl e, w4) \<Rightarrow> (Inl e, w4)
                     | (Inr u, w4) \<Rightarrow> (Inr (Some (gs_uri bucket_name blob_name)), w4))
                | (Inr False, w3) \<Rightarrow> (Inr None, w3))))"

text \<open>
  \<open>for attempt in range(max_retries)\<close>, counted by the attempts that are left: an
  attempt that returns ends the loop, any other sleeps the backoff and goes on.
\<close>

fun upload_attempts ::
  "nat \<Rightarrow> string \<Rightarrow> string \<Rightarrow> string \<Rightarrow> world \<Rightarrow> string option \<times> world" where
  "upload_attempts 0 file_path bucket_name blob_name w = (None, w)"
| "upload_attempts (Suc n) file_path bucket_name blob_name w =
     (case upload_try file_path bucket_name blob_name w of
        (Inr (Some uri), w1) \<Rightarrow> (Some uri, w1)
      | (Inr None, w1) \<Rightarrow>
          upload_attempts n file_path bucket_name blob_name (sleep RetryBackoff w1)
      | (Inl e, w1) \<Rightarrow>
          upload_attempts n file_path bucket_name blob_name (sleep RetryBackoff w1))"

definition blob_name_of :: "string \<Rightarrow> string \<Rightarrow> string" where
  "blob_name_of file_path gcs_prefix =
     (let filename = os_path_basename file_path;
          prefix = strip_slash gcs_prefix
      in if prefix \<noteq> [] then prefix @ ''/'' @ filename else filename)"

definition upload_to_gcs ::
  "string \<Rightarrow> string \<Rightarrow> string \<Rightarrow> int \<Rightarrow> world \<Rightarrow> string option \<times> world" where
  "upload_to_gcs file_path bucket_name gcs_prefix max_retries w =
     upload_attempts (nat max_retries) file_path bucket_name
       (blob_name_of file_path gcs_prefix) w"

subsection \<open>\<open>load_csv_to_bq\<close>\<close>

definition load_csv_to_bq ::
  "string \<Rightarrow> string \<Rightarrow> string \<Rightarrow> string \<Rightarrow> string \<Rightarrow> SchemaField list \<Rightarrow> string
     \<Rightarrow> world \<Rightarrow> (error + unit) \<times> world" where
  "load_csv_to_bq project_id dataset_id table_id gcs_uri partition_field schema
       write_disposition w =
     (let full_table = project_id @ ''.'' @ dataset_id @ ''.'' @ table_id
      in load_table_from_uri gcs_uri full_table w)"

subsection \<open>\<open>main\<close>\<close>

text \<open>The namespace returned by \<open>parser.parse_args()\<close>.\<close>

record args =
  args_taxi_type :: string
  args_year :: int
  args_months :: string
  args_bucket :: string
  args_gcs_prefix :: string
  args_bq_project :: string
  args_bq_dataset :: string
  args_bq_location :: string
  args_write_disposition :: string

text \<open>\<open>if fp:\<close> and \<open>if uri:\<close> hold for a result that is neither \<open>None\<close> nor empty.\<close>

definition truthy :: "string option \<Rightarrow> bool" where
  "truthy r = (case r of None \<Rightarrow> False | Some s \<Rightarrow> s \<noteq> [])"

text \<open>
  A pool runs the tasks submitted to it; here they run one after the other, in the order
  of submission. \<open>fut.result()\<close> raises what its task raised, which ends the collecting
  loop; a task that returned something true is appended.
\<close>

fun submit_downloads ::
  "string \<Rightarrow> int \<Rightarrow> string list \<Rightarrow> world \<Rightarrow> (error + string option) list \<times> world" where
  "submit_downloads taxi_type year [] w = ([], w)"
| "submit_downloads taxi_type year (m # ms) w =
     (let (r, w1) = download_file taxi_type year m w;
          (rs, w2) = submit_downloads taxi_type year ms w1
      in (r # rs, w2))"

fun collect_results :: "(error + string option) list \<Rightarrow> string list \<Rightarrow> error + string list" where
  "collect_results [] acc = Inr acc"
| "collect_results (Inl e # rs) acc = Inl e"
| "collect_results (Inr r # rs) acc =
     collect_results rs (if truthy r then acc @ [the r] else acc)"

fun submit_uploads ::
  "string list \<Rightarrow> string \<Rightarrow> string \<Rightarrow> world \<Rightarrow> (error + string option) list \<times> world" where
  "submit_uploads [] bucket_name gcs_prefix w = ([], w)"
| "submit_uploads (fp # fps) bucket_name gcs_prefix w =
     (let (r, w1) = upload_to_gcs fp bucket_name gcs_prefix 3 w;
          (rs, w2) = submit_uploads fps bucket_name gcs_prefix w1
      in (Inr r # rs, w2))"

text \<open>
  \<open>for month_batch in chunked(months, size=3)\<close>. Besides \<open>uploaded_uris\<close> the loop
  state keeps \<open>retrieved\<close>, the files downloaded in all batches so far, which the script
  does not keep but which the exit signal is stated with.
\<close>

fun process_batches ::
  "args \<Rightarrow> string list list \<Rightarrow> string list \<times> string list \<Rightarrow> world
     \<Rightarrow> (error + string list \<times> string list) \<times> world" where
  "process_batches a [] acc w = (Inr acc, w)"
| "process_batches a (month_batch # rest) (retrieved, uploaded_uris) w =
     (let (results, w1) = submit_downloads (args_taxi_type a) (args_year a) month_batch w
      in case collect_results results [] of
           Inl e \<Rightarrow> (Inl e, w1)
         | Inr downloaded_files \<Rightarrow>
             if downloaded_files = [] then process_batches a rest (retrieved, uploaded_uris) w1
             else
               (let (staged, w2) =
                      submit_uploads downloaded_files (args_bucket a) (args_gcs_prefix a) w1
                in case collect_results staged uploaded_uris of
                     Inl e \<Rightarrow> (Inl e, w2)
                   | Inr uris \<Rightarrow>
                       process_batches a rest (retrieved @ downloaded_files, uris) w2))"

text \<open>\<open>for uri in sorted(uploaded_uris): load_csv_to_bq(...)\<close>, a failed job raises.\<close>

fun load_each ::
  "string \<Rightarrow> string \<Rightarrow> string \<Rightarrow> string \<Rightarrow> SchemaField list \<Rightarrow> string \<Rightarrow> string list
     \<Rightarrow> world \<Rightarrow> (error + unit) \<times> world" where
  "load_each project_id dataset_id table_id partition_field schema write_disposition [] w =
     (Inr (), w)"
| "load_each project_id dataset_id table_id partition_field schema write_disposition
       (uri # uris) w =
     (case load_csv_to_bq project_id dataset_id table_id uri partition_field schema
             write_disposition w of
        (Inl e, w1) \<Rightarrow> (Inl e, w1)
      | (Inr u, w1) \<Rightarrow>
          load_each project_id dataset_id table_id partition_field schema write_disposition
            uris w1)"

text \<open>\<open>main\<close>, from the parsed arguments on.\<close>

definition main :: "args \<Rightarrow> world \<Rightarrow> (error + unit) \<times> world" where
  "main a w =
     (case get_partition_field (args_taxi_type a) of
        Inl e \<Rightarrow> (Inl e, w)
      | Inr partition_field \<Rightarrow>
     (case get_bq_schema (args_taxi_type a) of
        Inl e \<Rightarrow> (Inl e, w)
      | Inr schema \<Rightarrow>
     (let bq_project = (if args_bq_project a = [] then client_project w else args_bq_project a)
      in
     (case months_from_args (args_months a) of
        Inl e \<Rightarrow> (Inl e, w)
      | Inr months \<Rightarrow>
     (case ensure_bucket (args_bucket a) w of
        Inl e \<Rightarrow> (Inl e, w)
      | Inr u \<Rightarrow>
     (case ensure_bq_dataset bq_project (args_bq_dataset a) (args_bq_location a) w of
        Inl e \<Rightarrow> (Inl e, w)
      | Inr u \<Rightarrow>
     (case chunked months 3 of
        Inl e \<Rightarrow> (Inl e, w)
      | Inr batches \<Rightarrow>
     (case process_batches a batches ([], []) w of
        (Inl e, w1) \<Rightarrow> (Inl e, w1)
      | (Inr (retrieved, uploaded_uris), w1) \<Rightarrow>
          if uploaded_uris = [] then (Inl (SystemExit 1), w1)
          else load_each bq_project (args_bq_dataset a) (args_taxi_type a @ ''_tripdata'')
                 partition_field schema (args_write_disposition a) (sort uploaded_uris)
                 w1))))))))"

text \<open>
  The exit code of the process: zero when \<open>main\<close> returns, the code of \<open>sys.exit\<close>, and
  one for any other exception that nobody catches.
\<close>

definition exit_code :: "error + unit \<Rightarrow> nat" where
  "exit_code r = (case r of Inr u \<Rightarrow> 0 | Inl (SystemExit n) \<Rightarrow> n | Inl e \<Rightarrow> 1)"

text \<open>The load requests sent to the warehouse during a run, in order.\<close>

fun loads_of :: "call list \<Rightarrow> string list" where
  "loads_of [] = []"
| "loads_of (LoadTableFromUri uri table # cs) = uri # loads_of cs"
| "loads_of (c # cs) = loads_of cs"

fun uploads_of :: "call list \<Rightarrow> string list" where
  "uploads_of [] = []"
| "uploads_of (UploadFromFilename bucket blob_name path # cs) = path # uploads_of cs"
| "uploads_of (c # cs) = uploads_of cs"

fun checks_of :: "call list \<Rightarrow> string list" where
  "checks_of [] = []"
| "checks_of (BlobExists bucket blob_name # cs) = blob_name # checks_of cs"
| "checks_of (c # cs) = checks_of cs"

fun removes_of :: "call list \<Rightarrow> string list" where
  "removes_of [] = []"
| "removes_of (OsRemove path # cs) = path # removes_of cs"
| "removes_of (c # cs) = removes_of cs"

section \<open>The script \<open>load-yellow-taxi-data.py\<close>\<close>

text \<open>
  The homework script has the same \<open>safe_remove_local\<close> and \<open>verify_gcs_upload\<close>. Its
  \<open>upload_to_gcs\<close> runs the same attempts on the bucket of the environment, with the
  file name as blob name, and returns \<open>True\<close> where the pipeline returns the URI. The
  functions of this script carry the suffix \<open>hw\<close>.
\<close>

definition BASE_URL :: string where
  "BASE_URL = ''https://d37ci6vzurychx.cloudfront.net/trip-data/yellow_tripdata_2024-''"

definition MONTHS :: "string list" where
  "MONTHS = map (\<lambda>i. format_02d (int i)) [1..<7]"

definition create_bucket_hw :: "string \<Rightarrow> world \<Rightarrow> error + unit" where
  "create_bucket_hw bucket_name w =
     (if bucket_name = [] \<or> strip bucket_name = [] then
        Inl (ValueError ''Bucket name is empty/invalid.'')
      else case bucket_lookup w of
             Found \<Rightarrow> if bucket_in_project w then Inr () else Inl (SystemExit 1)
           | NotFound \<Rightarrow> if create_bucket_raises w then Inl CollaboratorError else Inr ()
           | Forbidden \<Rightarrow> Inl (SystemExit 1)
           | LookupRaises \<Rightarrow> Inl CollaboratorError)"

definition download_file_hw :: "string \<Rightarrow> world \<Rightarrow> string option \<times> world" where
  "download_file_hw month w =
     (let url = BASE_URL @ month @ ''.parquet'';
          file_path = os_path_join DOWNLOAD_DIR (''yellow_tripdata_2024-'' @ month @ ''.parquet'')
      in if os_path_exists file_path w \<and> os_path_getsize file_path w > 0 then
           (Some file_path, w)
         else
           (case urlretrieve url file_path w of
              (Inl e, w1) \<Rightarrow> (None, w1)
            | (Inr u, w1) \<Rightarrow> (Some file_path, sleep DownloadSleep w1)))"

definition upload_to_gcs_hw :: "string \<Rightarrow> string \<Rightarrow> int \<Rightarrow> world \<Rightarrow> bool \<times> world" where
  "upload_to_gcs_hw BUCKET_NAME file_path max_retries w =
     (let blob_name = os_path_basename file_path;
          (r, w1) = upload_attempts (nat max_retries) file_path BUCKET_NAME blob_name w
      in (r \<noteq> None, w1))"

fun downloads_hw :: "string list \<Rightarrow> world \<Rightarrow> string list \<times> world" where
  "downloads_hw [] w = ([], w)"
| "downloads_hw (m # ms) w =
     (let (fp, w1) = download_file_hw m w;
          (fps, w2) = downloads_hw ms w1
      in (if truthy fp then the fp # fps else fps, w2))"

fun uploads_hw :: "string \<Rightarrow> string list \<Rightarrow> nat \<Rightarrow> world \<Rightarrow> nat \<times> world" where
  "uploads_hw BUCKET_NAME [] success w = (success, w)"
| "uploads_hw BUCKET_NAME (fp # fps) success w =
     (let (ok, w1) = upload_to_gcs_hw BUCKET_NAME fp 3 w
      in uploads_hw BUCKET_NAME fps (success + (if ok then 1 else 0)) w1)"

text \<open>
  The \<open>__main__\<close> block. Next to the result it returns the number of successful
  uploads, which the script prints before it ends.
\<close>

definition main_hw :: "string \<Rightarrow> world \<Rightarrow> (error + unit) \<times> nat \<times> world" where
  "main_hw BUCKET_NAME w =
     (case create_bucket_hw BUCKET_NAME w of
        Inl e \<Rightarrow> (Inl e, 0, w)
      | Inr u \<Rightarrow>
          (let (downloaded_files, w1) = downloads_hw MONTHS w
           in if downloaded_files = [] then (Inl (SystemExit 1), 0, w1)
              else (let (success, w2) = uploads_hw BUCKET_NAME downloaded_files 0 w1
                    in (Inr (), success, w2))))"

section \<open>Vocabulary of the properties\<close>

text \<open>
  The period expressions of the command line are built from month numbers: a number
  written in decimal with \<open>k\<close> leading zeros (\<open>zero_padded 0 6\<close> is \<open>6\<close>, \<open>zero_padded 1 6\<close>
  is \<open>06\<close>), two of them around a dash for a range, any number of them between commas
  for a list. \<open>month_tokens\<close> are the twelve tokens a valid expression expands to.
\<close>

definition zero_padded :: "nat \<Rightarrow> nat \<Rightarrow> string" where
  "zero_padded k n = replicate k CHR ''0'' @ dec n"

fun comma_join :: "string list \<Rightarrow> string" where
  "comma_join [] = []"
| "comma_join [t] = t"
| "comma_join (t # u # ts) = t @ CHR '','' # comma_join (u # ts)"

definition digit_tokens :: "string list \<Rightarrow> bool" where
  "digit_tokens ts = (\<forall>t \<in> set ts. t \<noteq> [] \<and> (\<forall>c \<in> set t. is_digit c))"

definition month_tokens :: "string list" where
  "month_tokens =
     [''01'', ''02'', ''03'', ''04'', ''05'', ''06'', ''07'', ''08'', ''09'', ''10'', ''11'', ''12'']"

text \<open>The number of replies at the head of a script that say "raise".\<close>

definition leading_raises :: "bool list \<Rightarrow> nat" where
  "leading_raises script = length (takeWhile (\<lambda>raises. raises) script)"

text \<open>The position of the first reply of a script that says "raise", if there is one.\<close>

fun first_failure :: "bool list \<Rightarrow> nat option" where
  "first_failure [] = None"
| "first_failure (raises # script) =
     (if raises then Some 0 else map_option Suc (first_failure script))"

text \<open>
  The batch loop of \<open>main\<close> on the parsed months: its result is the pair of the files
  retrieved and the URIs staged in the run.
\<close>

definition batch_phase ::
  "args \<Rightarrow> world \<Rightarrow> (error + string list \<times> string list) \<times> world" where
  "batch_phase a w =
     (case months_from_args (args_months a) of
        Inl e \<Rightarrow> (Inl e, w)
      | Inr months \<Rightarrow>
          (case chunked months 3 of
             Inl e \<Rightarrow> (Inl e, w)
           | Inr batches \<Rightarrow> process_batches a batches ([], []) w))"

text \<open>
  Example worlds: nothing fails, the bucket and the dataset exist, and one downloaded
  file waits for its upload. In \<open>staged_world\<close> its blob is already in the bucket.
\<close>

definition example_file :: string where
  "example_file = ''./green_tripdata_2020-01.csv.gz''"

definition fresh_world :: world where
  "fresh_world =
     \<lparr>files = [example_file \<mapsto> 10], blobs = {}, exists_script = [], upload_script = [],
      remove_script = [], fetch_script = [], load_script = [], bucket_lookup = Found,
      bucket_in_project = True, create_bucket_raises = False, dataset_lookup = Found,
      create_dataset_raises = False, client_project = ''project'', calls = []\<rparr>"

definition staged_world :: world where
  "staged_world = fresh_world\<lparr>blobs := {(''bucket'', ''green_tripdata_2020-01.csv.gz'')}\<rparr>"

definition example_args :: args where
  "example_args =
     \<lparr>args_taxi_type = ''green'', args_year = 2020, args_months = ''1-2'',
      args_bucket = ''bucket'', args_gcs_prefix = [], args_bq_project = [],
      args_bq_dataset = ''dataset'', args_bq_location = ''US'',
      args_write_disposition = ''WRITE_APPEND''\<rparr>"

text \<open>
  The steps of \<open>main\<close> around the batch loop: \<open>bootstrap_ok\<close> says that the partition
  field, the schema, the bucket and the dataset were all obtained, \<open>loads_succeed n\<close> that
  none of the next \<open>n\<close> load jobs fails.
\<close>

definition bootstrap_ok :: "args \<Rightarrow> world \<Rightarrow> bool" where
  "bootstrap_ok a w =
     (\<not> isl (get_partition_field (args_taxi_type a))
      \<and> \<not> isl (get_bq_schema (args_taxi_type a))
      \<and> \<not> isl (ensure_bucket (args_bucket a) w)
      \<and> \<not> isl (ensure_bq_dataset
                   (if args_bq_project a = [] then client_project w else args_bq_project a)
                   (args_bq_dataset a) (args_bq_location a) w))"

definition loads_succeed :: "nat \<Rightarrow> world \<Rightarrow> bool" where
  "loads_succeed n w = (case first_failure (load_script w) of None \<Rightarrow> True | Some i \<Rightarrow> n \<le> i)"

text \<open>
  A world for the homework script: the first month is fetched, the other five fail, and
  the uploads of the one file are lost three times.
\<close>

definition lossy_world :: world where
  "lossy_world =
     fresh_world\<lparr>fetch_script :=
                   [Fetched 1, FetchRaises, FetchRaises, FetchRaises, FetchRaises, FetchRaises],
                 upload_script := [Lost, Lost, Lost]\<rparr>"

section \<open>Properties of \<open>chunked\<close>\<close>

lemma concat_chunked_from:
  "0 < n \<Longrightarrow> concat (chunked_from i lst n) = drop i lst"
proof (induction i lst n rule: chunked_from.induct)
  case (1 i lst n)
  show ?case
  proof (cases "length lst \<le> i")
    case True
    then show ?thesis by (simp add: chunked_from.simps)
  next
    case False
    have unfold: "chunked_from i lst n = take n (drop i lst) # chunked_from (i + n) lst n"
      using False 1(2) by (subst chunked_from.simps) simp
    from False 1 have ih: "concat (chunked_from (i + n) lst n) = drop (i + n) lst" by simp
    have "drop (i + n) lst = drop n (drop i lst)" by (simp add: add.commute)
    then have "concat (chunked_from i lst n) = take n (drop i lst) @ drop n (drop i lst)"
      using unfold ih by simp
    then show ?thesis by (simp only: append_take_drop_id)
  qed
qed

lemma length_chunked_from:
  "0 < n \<Longrightarrow> length (chunked_from i lst n) = (length lst - i + n - 1) div n"
proof (induction i lst n rule: chunked_from.induct)
  case (1 i lst n)
  show ?case
  proof (cases "length lst \<le> i")
    case True
    with 1(2) show ?thesis by (simp add: chunked_from.simps)
  next
    case False
    with 1 have ih: "length (chunked_from (i + n) lst n) = (length lst - (i + n) + n - 1) div n"
      by simp
    from False obtain d where d: "length lst - i = Suc d" by (cases "length lst - i") auto
    have "(length lst - i + n - 1) div n = (d + n) div n" using d by simp
    also have "\<dots> = Suc (d div n)" using 1(2) by simp
    also have "d div n = (length lst - (i + n) + n - 1) div n"
    proof (cases "n \<le> Suc d")
      case True
      then have "length lst - (i + n) + n - 1 = d" using d by arith
      then show ?thesis by simp
    next
      case False
      then have "length lst - (i + n) + n - 1 = n - 1" "d < n - 1 \<or> d = n - 1" using d by arith+
      then show ?thesis using False by auto
    qed
    finally show ?thesis using False 1(2) ih
      by (subst chunked_from.simps) simp
  qed
qed

lemma nth_chunked_from:
  "0 < n \<Longrightarrow> k < length (chunked_from i lst n) \<Longrightarrow>
     chunked_from i lst n ! k = take n (drop (i + k * n) lst)"
proof (induction i lst n arbitrary: k rule: chunked_from.induct)
  case (1 i lst n)
  show ?case
  proof (cases "length lst \<le> i")
    case True
    with 1(3) show ?thesis by (simp add: chunked_from.simps)
  next
    case False
    have unfold: "chunked_from i lst n = take n (drop i lst) # chunked_from (i + n) lst n"
      using False 1(2) by (subst chunked_from.simps) simp
    show ?thesis
    proof (cases k)
      case 0
      then show ?thesis using unfold by simp
    next
      case (Suc j)
      with 1(3) unfold have "j < length (chunked_from (i + n) lst n)" by simp
      with 1(1)[of j] False 1(2) have "chunked_from (i + n) lst n ! j = take n (drop (i + n + j * n) lst)"
        by simp
      then show ?thesis using unfold Suc by (simp add: add.assoc)
    qed
  qed
qed

lemma ceil_div_int:
  fixes a b :: int
  assumes "0 < b"
  shows "- (- a div b) = (a + b - 1) div b"
proof -
  define q r where "q = a div b" and "r = a mod b"
  have a: "a = b * q + r" and r: "0 \<le> r" "r < b"
    using assms by (simp_all add: q_def r_def)
  have "(a + b - 1) div b = (b * q + (r + b - 1)) div b" using a by (simp add: algebra_simps)
  also have "\<dots> = q + (r + b - 1) div b" using assms by (subst div_mult_self4) simp_all
  also have "(r + b - 1) div b = (if r = 0 then 0 else 1)"
  proof (cases "r = 0")
    case True
    then show ?thesis using assms by (simp add: div_pos_pos_trivial)
  next
    case False
    have "(r + b - 1) div b = (b * 1 + (r - 1)) div b" by (simp add: algebra_simps)
    also have "\<dots> = 1 + (r - 1) div b" using assms by (subst div_mult_self4) simp_all
    also have "(r - 1) div b = 0" using False r by (simp add: div_pos_pos_trivial)
    finally show ?thesis using False by simp
  qed
  finally have rhs: "(a + b - 1) div b = q + (if r = 0 then 0 else 1)" .
  have "- a div b = (if r = 0 then - q else - q - 1)"
    using assms by (simp add: zdiv_zminus1_eq_if q_def r_def)
  with rhs show ?thesis by simp
qed

lemma ceil_div_nat:
  assumes "0 < n"
  shows "int ((L + n - 1) div n) = \<lceil>real L / real n\<rceil>"
proof -
  have "\<lceil>real L / real n\<rceil> = \<lceil>of_int (int L) / (of_int (int n) :: real)\<rceil>" by simp
  also have "\<dots> = - (- int L div int n)" by (rule ceiling_divide_eq_div)
  also have "\<dots> = (int L + int n - 1) div int n" using assms by (simp add: ceil_div_int)
  also have "\<dots> = int ((L + n - 1) div n)"
  proof -
    have "int L + int n - 1 = int (L + n - 1)" using assms by (simp add: of_nat_diff)
    then show ?thesis by (simp only: zdiv_int)
  qed
  finally show ?thesis by simp
qed

text \<open>
  C4, batch partition completeness. For every list \<open>allItems\<close> and every batch size
  \<open>B > 0\<close>, \<open>chunked\<close> returns batches whose concatenation is \<open>allItems\<close>, whose number
  is \<open>ceil(L / B)\<close> for \<open>L\<close> the length of \<open>allItems\<close>, and whose \<open>k\<close>-th batch is
  the contiguous slice \<open>allItems[k * B : k * B + B]\<close>: original order, no overlap, no
  omission.
\<close>

theorem chunked_partition_complete:
  assumes "0 < B"
  shows "\<exists>batches. chunked allItems B = Inr batches
           \<and> concat batches = allItems
           \<and> int (length batches) = \<lceil>real (length allItems) / real_of_int B\<rceil>
           \<and> (\<forall>k < length batches.
                 batches ! k = take (nat B) (drop (k * nat B) allItems))"
proof -
  define n where "n = nat B"
  with assms have n: "0 < n" "B = int n" by simp_all
  let ?bs = "chunked_from 0 allItems n"
  have "chunked allItems B = Inr ?bs" using assms by (simp add: chunked_def n_def)
  moreover have "concat ?bs = allItems" using n(1) by (simp add: concat_chunked_from)
  moreover have "int (length ?bs) = \<lceil>real (length allItems) / real_of_int B\<rceil>"
    using n ceil_div_nat [of n "length allItems"] by (simp add: length_chunked_from)
  moreover have "\<forall>k < length ?bs. ?bs ! k = take (nat B) (drop (k * nat B) allItems)"
    using n nth_chunked_from [of n _ 0 allItems] by simp
  ultimately show ?thesis by blast
qed

theorem chunked_partition_complete_witness:
  "(0::int) < 3 \<and>
   (\<exists>batches. chunked ''abcdefg'' 3 = Inr batches
      \<and> concat batches = ''abcdefg''
      \<and> int (length batches) = \<lceil>real (length ''abcdefg'') / real_of_int 3\<rceil>
      \<and> (\<forall>k < length batches. batches ! k = take (nat 3) (drop (k * nat 3) ''abcdefg'')))"
  using chunked_partition_complete [of 3 "''abcdefg''"] by simp

section \<open>Properties of \<open>months_from_args\<close>\<close>

lemma digit_char_props:
  assumes "d < 10"
  shows "is_digit (digit_char d)" "digit_val (digit_char d) = d" "\<not> is_space (digit_char d)"
    "digit_char d \<noteq> CHR ''-''" "digit_char d \<noteq> CHR '',''"
proof -
  have c: "of_char (digit_char d) = 48 + d"
    using assms by (simp add: digit_char_def)
  show "is_digit (digit_char d)" using assms c by (simp add: is_digit_def)
  show "digit_val (digit_char d) = d" using c by (simp add: digit_val_def)
  show "\<not> is_space (digit_char d)" using assms c by (simp add: is_space_def)
  show "digit_char d \<noteq> CHR ''-''"
  proof
    assume "digit_char d = CHR ''-''"
    then have "of_char (digit_char d) = (of_char CHR ''-'' :: nat)" by simp
    with c show False by simp
  qed
  show "digit_char d \<noteq> CHR '',''"
  proof
    assume "digit_char d = CHR '',''"
    then have "of_char (digit_char d) = (of_char CHR '','' :: nat)" by simp
    with c show False by simp
  qed
qed

lemma digit_zero: "digit_char 0 = CHR ''0''"
  unfolding digit_char_def by code_simp

lemma is_digit_not_special:
  assumes "is_digit c"
  shows "\<not> is_space c" "c \<noteq> CHR ''-''" "c \<noteq> CHR '',''" "c \<noteq> CHR ''+''"
    "\<not> is_int_space c"
  using assms by (auto simp: is_digit_def is_space_def is_int_space_def Let_def)

lemma digits_acc_all_digits:
  "\<forall>c \<in> set s. is_digit c \<Longrightarrow>
     digits_acc acc s = Some (foldl (\<lambda>a c. 10 * a + digit_val c) acc s)"
  by (induction s arbitrary: acc) simp_all

lemma dec_digits: "\<forall>c \<in> set (dec n). is_digit c"
proof (induction n rule: dec.induct)
  case (1 n)
  show ?case
  proof (cases "n < 10")
    case True
    then show ?thesis by (subst dec.simps) (simp add: digit_char_props)
  next
    case False
    with 1 have "\<forall>c \<in> set (dec (n div 10)). is_digit c" by simp
    moreover have "is_digit (digit_char (n mod 10))" by (simp add: digit_char_props)
    ultimately show ?thesis using False by (subst dec.simps) auto
  qed
qed

lemma dec_nonempty: "dec n \<noteq> []"
  by (subst dec.simps) simp

lemma foldl_dec: "foldl (\<lambda>a c. 10 * a + digit_val c) 0 (dec n) = n"
proof (induction n rule: dec.induct)
  case (1 n)
  show ?case
  proof (cases "n < 10")
    case True
    then show ?thesis by (subst dec.simps) (simp add: digit_char_props)
  next
    case False
    with 1 have "foldl (\<lambda>a c. 10 * a + digit_val c) 0 (dec (n div 10)) = n div 10" by simp
    then show ?thesis using False by (subst dec.simps) (simp add: digit_char_props)
  qed
qed

lemma foldl_zeros:
  "foldl (\<lambda>a c. 10 * a + digit_val c) 0 (replicate k CHR ''0'' @ s)
     = foldl (\<lambda>a c. 10 * a + digit_val c) 0 s"
  by (induction k) (simp_all add: digit_val_def)


lemma is_digit_zero: "is_digit CHR ''0''"
  by (simp add: is_digit_def)

lemma zero_padded_digits: "\<forall>c \<in> set (zero_padded k n). is_digit c"
  using dec_digits [of n] by (auto simp: zero_padded_def is_digit_zero)

lemma zero_padded_nonempty: "zero_padded k n \<noteq> []"
  by (simp add: zero_padded_def dec_nonempty)

lemma trim_id:
  assumes "s = [] \<or> (\<not> P (hd s) \<and> \<not> P (last s))"
  shows "rev (dropWhile P (rev (dropWhile P s))) = s"
proof (cases s)
  case Nil
  then show ?thesis by simp
next
  case (Cons c cs)
  with assms have h: "\<not> P (hd s)" and l: "\<not> P (last s)" by simp_all
  from Cons h have "dropWhile P s = s" by simp
  moreover have "dropWhile P (rev s) = rev s"
  proof -
    from Cons have "rev s \<noteq> []" by simp
    moreover have "hd (rev s) = last s" by (rule hd_rev)
    with l have "\<not> P (hd (rev s))" by simp
    ultimately show ?thesis by (cases "rev s") simp_all
  qed
  ultimately show ?thesis by simp
qed

lemma strip_id:
  assumes "s = [] \<or> (\<not> is_space (hd s) \<and> \<not> is_space (last s))"
  shows "strip s = s"
  unfolding strip_def using assms by (rule trim_id)

lemma int_strip_digits:
  assumes "\<forall>c \<in> set s. is_digit c"
  shows "int_strip s = s"
  unfolding int_strip_def
proof (rule trim_id)
  show "s = [] \<or> (\<not> is_int_space (hd s) \<and> \<not> is_int_space (last s))"
  proof (cases s)
    case Nil
    then show ?thesis by simp
  next
    case (Cons c cs)
    then have "hd s \<in> set s" "last s \<in> set s" by simp_all
    with assms show ?thesis by (auto dest: is_digit_not_special(5))
  qed
qed

lemma strip_digits: "\<forall>c \<in> set s. is_digit c \<Longrightarrow> strip s = s"
proof (rule strip_id)
  assume d: "\<forall>c \<in> set s. is_digit c"
  show "s = [] \<or> (\<not> is_space (hd s) \<and> \<not> is_space (last s))"
  proof (cases s)
    case Nil
    then show ?thesis by simp
  next
    case (Cons c cs)
    then have "hd s \<in> set s" "last s \<in> set s" by simp_all
    with d show ?thesis by (auto dest: is_digit_not_special(1))
  qed
qed

lemma python_int_digits:
  assumes "\<forall>c \<in> set s. is_digit c" "s \<noteq> []"
  shows "python_int s =
           (if MAX_STR_DIGITS < length s then Inl digits_limit_exceeded
            else Inr (int (foldl (\<lambda>a c. 10 * a + digit_val c) 0 s)))"
proof -
  from assms obtain c cs where s: "s = c # cs" by (cases s) auto
  with assms have c: "is_digit c" by simp
  have "parse_digits s = Some (foldl (\<lambda>a c. 10 * a + digit_val c) 0 s)"
    using c s digits_acc_all_digits [OF assms(1), of 0] by (simp add: parse_digits_def)
  moreover from assms(1) have "filter is_digit s = s" by (simp add: filter_id_conv)
  ultimately have "int_of_digits s =
           (if MAX_STR_DIGITS < length s then Inl digits_limit_exceeded
            else Inr (foldl (\<lambda>a c. 10 * a + digit_val c) 0 s))"
    by (simp add: int_of_digits_def)
  moreover from assms(1) have "int_strip s = c # cs" using s by (simp add: int_strip_digits)
  moreover from c have "c \<noteq> CHR ''-''" "c \<noteq> CHR ''+''"
    by (simp_all add: is_digit_not_special)
  ultimately show ?thesis using s by (simp add: python_int_def)
qed

lemma python_int_zero_padded:
  "python_int (zero_padded k n) =
     (if MAX_STR_DIGITS < length (zero_padded k n) then Inl digits_limit_exceeded
      else Inr (int n))"
proof -
  have "python_int (zero_padded k n)
          = (if MAX_STR_DIGITS < length (zero_padded k n) then Inl digits_limit_exceeded
             else Inr (int (foldl (\<lambda>a c. 10 * a + digit_val c) 0 (zero_padded k n))))"
    by (rule python_int_digits) (simp_all add: zero_padded_digits zero_padded_nonempty)
  moreover have "foldl (\<lambda>a c. 10 * a + digit_val c) 0 (zero_padded k n) = n"
    unfolding zero_padded_def by (simp only: foldl_zeros foldl_dec)
  ultimately show ?thesis by simp
qed

lemma split_on_no_sep: "sep \<notin> set t \<Longrightarrow> split_on sep t = [t]"
  by (induction t) auto

lemma split_on_append:
  "sep \<notin> set t \<Longrightarrow> split_on sep (t @ sep # rest) = t # split_on sep rest"
  by (induction t) auto

lemma split_on_comma_join:
  "ts \<noteq> [] \<Longrightarrow> \<forall>t \<in> set ts. CHR '','' \<notin> set t \<Longrightarrow>
     split_on CHR '','' (comma_join ts) = ts"
  by (induction ts rule: comma_join.induct) (simp_all add: split_on_no_sep split_on_append)

lemma set_comma_join: "set (comma_join ts) \<subseteq> insert CHR '','' (\<Union> (set ` set ts))"
  by (induction ts rule: comma_join.induct) auto

lemma hd_comma_join: "ts \<noteq> [] \<Longrightarrow> hd ts \<noteq> [] \<Longrightarrow> hd (comma_join ts) = hd (hd ts)"
  by (induction ts rule: comma_join.induct) simp_all

lemma comma_join_eq_Nil: "comma_join ts = [] \<longleftrightarrow> ts = [] \<or> ts = [[]]"
  by (induction ts rule: comma_join.induct) simp_all

lemma last_comma_join:
  "ts \<noteq> [] \<Longrightarrow> last ts \<noteq> [] \<Longrightarrow> last (comma_join ts) = last (last ts)"
proof (induction ts rule: comma_join.induct)
  case (3 t u ts)
  then have "comma_join (u # ts) \<noteq> []" by (auto simp: comma_join_eq_Nil)
  with 3 show ?case by simp
qed simp_all

lemma strip_comma_join:
  assumes "digit_tokens ts"
  shows "strip (comma_join ts) = comma_join ts"
proof (cases ts)
  case Nil
  then show ?thesis by (simp add: strip_def)
next
  case (Cons t us)
  then have ne: "ts \<noteq> []" by simp
  then have "hd ts \<in> set ts" "last ts \<in> set ts" by simp_all
  with assms have h: "hd ts \<noteq> []" "is_digit (hd (hd ts))"
    and l: "last ts \<noteq> []" "is_digit (last (last ts))"
    by (auto simp: digit_tokens_def)
  show ?thesis
  proof (rule strip_id, rule disjI2)
    show "\<not> is_space (hd (comma_join ts)) \<and> \<not> is_space (last (comma_join ts))"
      using ne h l by (simp add: hd_comma_join last_comma_join is_digit_not_special(1))
  qed
qed

lemma no_dash_comma_join:
  assumes "digit_tokens ts"
  shows "CHR ''-'' \<notin> set (comma_join ts)"
proof
  assume "CHR ''-'' \<in> set (comma_join ts)"
  with set_comma_join [of ts] obtain t where "t \<in> set ts" "CHR ''-'' \<in> set t" by auto
  with assms show False by (auto simp: digit_tokens_def dest: is_digit_not_special(2))
qed

lemma parts_comma_join:
  assumes "digit_tokens ts"
  shows "map strip (filter (\<lambda>p. strip p \<noteq> []) (split_on CHR '','' (comma_join ts))) = ts"
proof (cases ts)
  case Nil
  then show ?thesis by (simp add: strip_def)
next
  case (Cons t us)
  have st: "\<forall>t \<in> set ts. strip t = t \<and> t \<noteq> []"
    using assms by (auto simp: digit_tokens_def strip_digits)
  have "\<forall>t \<in> set ts. CHR '','' \<notin> set t"
    using assms by (auto simp: digit_tokens_def dest: is_digit_not_special(3))
  with Cons have "split_on CHR '','' (comma_join ts) = ts"
    by (intro split_on_comma_join) simp_all
  moreover have "filter (\<lambda>p. strip p \<noteq> []) ts = ts" using st by (simp add: filter_id_conv)
  moreover have "map strip ts = ts" using st by (simp add: map_idI)
  ultimately show ?thesis by simp
qed

lemma months_loop_valid:
  "\<forall>(k, n) \<in> set kns. 1 \<le> n \<and> n \<le> 12 \<and> length (zero_padded k n) \<le> MAX_STR_DIGITS \<Longrightarrow>
     months_loop (map (\<lambda>(k, n). zero_padded k n) kns) out
       = Inr (out @ map (\<lambda>(k, n). format_02d (int n)) kns)"
  by (induction kns arbitrary: out) (auto simp: python_int_zero_padded)

lemma months_loop_invalid:
  "\<exists>(k, n) \<in> set kns. n < 1 \<or> 12 < n \<Longrightarrow>
     isl (months_loop (map (\<lambda>(k, n). zero_padded k n) kns) out)"
proof (induction kns arbitrary: out)
  case Nil
  then show ?case by simp
next
  case (Cons kn kns)
  obtain k n where kn: "kn = (k, n)" by (cases kn)
  show ?case
  proof (cases "n < 1 \<or> 12 < n")
    case True
    then show ?thesis using kn by (auto simp: python_int_zero_padded)
  next
    case False
    with Cons.prems kn have "\<exists>(k, n) \<in> set kns. n < 1 \<or> 12 < n" by auto
    then have "isl (months_loop (map (\<lambda>(k, n). zero_padded k n) kns)
                      (out @ [format_02d (int n)]))"
      by (rule Cons.IH)
    with False kn show ?thesis by (simp add: python_int_zero_padded)
  qed
qed

lemma digit_tokens_zero_padded: "digit_tokens (map (\<lambda>(k, n). zero_padded k n) kns)"
  by (auto simp: digit_tokens_def zero_padded_nonempty zero_padded_digits)

lemma months_from_args_list:
  "months_from_args (comma_join (map (\<lambda>(k, n). zero_padded k n) kns))
     = months_loop (map (\<lambda>(k, n). zero_padded k n) kns) []"
  using digit_tokens_zero_padded [of kns]
  by (simp add: months_from_args_def strip_comma_join no_dash_comma_join parts_comma_join)


lemma takeWhile_dash:
  "\<forall>c \<in> set t. is_digit c \<Longrightarrow> takeWhile (\<lambda>c. c \<noteq> CHR ''-'') (t @ CHR ''-'' # u) = t"
  by (induction t) (auto dest: is_digit_not_special(2))

lemma dropWhile_dash:
  "\<forall>c \<in> set t. is_digit c \<Longrightarrow>
     dropWhile (\<lambda>c. c \<noteq> CHR ''-'') (t @ CHR ''-'' # u) = CHR ''-'' # u"
  by (induction t) (auto dest: is_digit_not_special(2))

lemma strip_range:
  assumes "\<forall>c \<in> set t. is_digit c" "t \<noteq> []" "\<forall>c \<in> set u. is_digit c" "u \<noteq> []"
  shows "strip (t @ CHR ''-'' # u) = t @ CHR ''-'' # u"
proof (rule strip_id, rule disjI2)
  from assms have "hd t \<in> set t" "last u \<in> set u" by simp_all
  with assms have "is_digit (hd t)" "is_digit (last u)" by blast+
  then show "\<not> is_space (hd (t @ CHR ''-'' # u)) \<and> \<not> is_space (last (t @ CHR ''-'' # u))"
    using assms(2,4) by (simp add: is_digit_not_special(1))
qed

lemma months_from_args_range:
  "months_from_args (zero_padded j a @ CHR ''-'' # zero_padded k b) =
     (if MAX_STR_DIGITS < length (zero_padded j a) \<or> MAX_STR_DIGITS < length (zero_padded k b)
      then Inl digits_limit_exceeded
      else if a < 1 \<or> 12 < b \<or> b < a
      then Inl (ValueError ''Invalid month range. Example: 1-6 or 01-06'')
      else Inr (map format_02d [int a..int b]))"
proof -
  let ?t = "zero_padded j a" and ?u = "zero_padded k b"
  have "strip (?t @ CHR ''-'' # ?u) = ?t @ CHR ''-'' # ?u"
    by (rule strip_range) (simp_all add: zero_padded_digits zero_padded_nonempty)
  moreover have "takeWhile (\<lambda>c. c \<noteq> CHR ''-'') (?t @ CHR ''-'' # ?u) = ?t"
    by (rule takeWhile_dash) (rule zero_padded_digits)
  moreover have "dropWhile (\<lambda>c. c \<noteq> CHR ''-'') (?t @ CHR ''-'' # ?u) = CHR ''-'' # ?u"
    by (rule dropWhile_dash) (rule zero_padded_digits)
  ultimately show ?thesis
    by (simp add: months_from_args_def python_int_zero_padded)
qed

lemma format_02d_month:
  assumes "1 \<le> m" "m \<le> 12"
  shows "format_02d (int m) = month_tokens ! (m - 1)"
proof -
  from assms have "m \<in> set [1, 2, 3, 4, 5, 6, 7, 8, 9, 10, 11, 12]" by (simp; arith)
  moreover have "\<forall>m \<in> set [1, 2, 3, 4, 5, 6, 7, 8, 9, 10, 11, 12 :: nat].
                  format_02d (int m) = month_tokens ! (m - 1)"
    by code_simp
  ultimately show ?thesis by blast
qed

lemma upto_int_upt: "[int a..int b] = map int [a..<Suc b]"
proof (induction b)
  case 0
  show ?case by (cases "a = 0") (simp_all add: upto.simps)
next
  case (Suc b)
  show ?case
  proof (cases "a \<le> Suc b")
    case True
    then have "[int a..int (Suc b)] = [int a..int b] @ [int (Suc b)]"
      by (subst upto_rec2) simp_all
    with Suc True show ?thesis by simp
  next
    case False
    then show ?thesis by (simp add: upto.simps)
  qed
qed

lemma range_tokens:
  assumes "1 \<le> a" "b \<le> 12"
  shows "map format_02d [int a..int b] = map (\<lambda>m. month_tokens ! (m - 1)) [a..<Suc b]"
proof -
  have "\<forall>m \<in> set [a..<Suc b]. format_02d (int m) = month_tokens ! (m - 1)"
    using assms by (auto simp: format_02d_month)
  then show ?thesis by (simp add: upto_int_upt del: upt_Suc)
qed

lemma list_tokens:
  assumes "\<forall>(k, n) \<in> set kns. 1 \<le> n \<and> n \<le> 12"
  shows "map (\<lambda>(k, n). format_02d (int n)) kns = map (\<lambda>(k, n). month_tokens ! (n - 1)) kns"
  using assms by (auto simp: format_02d_month)

lemma strip_keeps_head:
  assumes "\<not> is_space c"
  shows "strip (c # t) = c # rev (dropWhile is_space (rev t))"
proof -
  have "dropWhile is_space (rev t @ [c]) = dropWhile is_space (rev t) @ [c]"
    using assms by (simp add: dropWhile_append)
  then show ?thesis using assms by (simp add: strip_def)
qed

lemma months_from_args_leading_dash: "isl (months_from_args (CHR ''-'' # t))"
proof -
  have "\<not> is_space CHR ''-''" by (simp add: is_space_def)
  then have "strip (CHR ''-'' # t) = CHR ''-'' # rev (dropWhile is_space (rev t))"
    by (rule strip_keeps_head)
  moreover have "python_int [] = Inl invalid_literal"
    by (simp add: python_int_def int_strip_def)
  ultimately show ?thesis by (simp add: months_from_args_def)
qed

lemma set_strip: "set (strip s) \<subseteq> set s"
proof -
  have "set (strip s) = set (dropWhile is_space (rev (dropWhile is_space s)))"
    by (simp add: strip_def)
  also have "\<dots> \<subseteq> set (rev (dropWhile is_space s))" by (rule set_dropWhileD [THEN subsetI]) 
  also have "\<dots> \<subseteq> set s" using set_dropWhileD [of _ is_space s] by auto
  finally show ?thesis .
qed

lemma strip_all_space:
  assumes "\<forall>c \<in> set p. is_space c"
  shows "strip p = []"
proof -
  from assms have d: "dropWhile is_space p = []" by (induction p) simp_all
  show ?thesis unfolding strip_def d by simp
qed

lemma split_on_parts: "p \<in> set (split_on sep s) \<Longrightarrow> set p \<subseteq> set s - {sep}"
proof (induction s arbitrary: p)
  case Nil
  then show ?case by simp
next
  case (Cons c cs)
  have ne: "split_on sep cs \<noteq> []" by (cases cs) simp_all
  show ?case
  proof (cases "c = sep")
    case True
    with Cons show ?thesis by auto
  next
    case False
    with Cons.prems have "p = c # hd (split_on sep cs) \<or> p \<in> set (tl (split_on sep cs))"
      by simp
    then show ?thesis
    proof
      assume p: "p = c # hd (split_on sep cs)"
      from ne have "hd (split_on sep cs) \<in> set (split_on sep cs)" by simp
      then have "set (hd (split_on sep cs)) \<subseteq> set cs - {sep}" by (rule Cons.IH)
      with p False show ?thesis by auto
    next
      assume "p \<in> set (tl (split_on sep cs))"
      with ne have "p \<in> set (split_on sep cs)" by (auto dest: list.set_sel(2))
      then have "set p \<subseteq> set cs - {sep}" by (rule Cons.IH)
      then show ?thesis by auto
    qed
  qed
qed

lemma months_from_args_blank_lemma:
  assumes "\<forall>c \<in> set s. is_space c \<or> c = CHR '',''"
  shows "months_from_args s = Inr []"
proof -
  have "\<not> is_space CHR ''-''" by (simp add: is_space_def)
  with assms have "CHR ''-'' \<notin> set s" by auto
  with set_strip [of s] have nodash: "CHR ''-'' \<notin> set (strip s)" by auto
  have "\<forall>p \<in> set (split_on CHR '','' (strip s)). strip p = []"
  proof
    fix p assume "p \<in> set (split_on CHR '','' (strip s))"
    then have "set p \<subseteq> set (strip s) - {CHR '',''}" by (rule split_on_parts)
    with set_strip [of s] assms have "\<forall>c \<in> set p. is_space c" by auto
    then show "strip p = []" by (rule strip_all_space)
  qed
  then have "filter (\<lambda>p. strip p \<noteq> []) (split_on CHR '','' (strip s)) = []"
    by (simp add: filter_empty_conv)
  with nodash show ?thesis by (simp add: months_from_args_def)
qed


text \<open>
  C6, period-expression expansion. A range \<open>a-b\<close> with \<open>1 \<le> a \<le> b \<le> 12\<close> and a list of
  months each in \<open>[1, 12]\<close>, every number written with or without leading zeros (and
  with no more digits than \<open>int()\<close> accepts), expand to the two-digit tokens of their
  months, in order. A range whose start is below 1 (also one that starts with a minus
  sign), whose end exceeds 12 or whose start exceeds its end raises, and so does a list
  with a month outside \<open>[1, 12]\<close>, and a range with a number of more digits than \<open>int()\<close>
  accepts.
\<close>

theorem months_from_args_forms:
  "(1 \<le> a \<and> a \<le> b \<and> b \<le> 12
      \<and> length (zero_padded j a) \<le> MAX_STR_DIGITS \<and> length (zero_padded k b) \<le> MAX_STR_DIGITS
     \<longrightarrow>
      months_from_args (zero_padded j a @ ''-'' @ zero_padded k b)
        = Inr (map (\<lambda>m. month_tokens ! (m - 1)) [a..<Suc b]))
   \<and> ((\<forall>(k, n) \<in> set kns. 1 \<le> n \<and> n \<le> 12 \<and> length (zero_padded k n) \<le> MAX_STR_DIGITS) \<longrightarrow>
      months_from_args (comma_join (map (\<lambda>(k, n). zero_padded k n) kns))
        = Inr (map (\<lambda>(k, n). month_tokens ! (n - 1)) kns))
   \<and> (a' < 1 \<or> 12 < b' \<or> b' < a' \<longrightarrow>
      isl (months_from_args (zero_padded j' a' @ ''-'' @ zero_padded k' b')))
   \<and> ((\<exists>(k, n) \<in> set kns'. n < 1 \<or> 12 < n) \<longrightarrow>
      isl (months_from_args (comma_join (map (\<lambda>(k, n). zero_padded k n) kns'))))
   \<and> isl (months_from_args (CHR ''-'' # rest))
   \<and> (MAX_STR_DIGITS < length (zero_padded j' a') \<or> MAX_STR_DIGITS < length (zero_padded k' b')
        \<longrightarrow> isl (months_from_args (zero_padded j' a' @ ''-'' @ zero_padded k' b')))"
proof (intro conjI impI)
  assume "1 \<le> a \<and> a \<le> b \<and> b \<le> 12
      \<and> length (zero_padded j a) \<le> MAX_STR_DIGITS \<and> length (zero_padded k b) \<le> MAX_STR_DIGITS"
  then show "months_from_args (zero_padded j a @ ''-'' @ zero_padded k b)
        = Inr (map (\<lambda>m. month_tokens ! (m - 1)) [a..<Suc b])"
    by (simp add: months_from_args_range range_tokens del: upt_Suc)
next
  assume valid: "\<forall>(k, n) \<in> set kns. 1 \<le> n \<and> n \<le> 12 \<and> length (zero_padded k n) \<le> MAX_STR_DIGITS"
  then have "\<forall>(k, n) \<in> set kns. 1 \<le> n \<and> n \<le> 12" by auto
  then have "map (\<lambda>(k, n). format_02d (int n)) kns = map (\<lambda>(k, n). month_tokens ! (n - 1)) kns"
    by (rule list_tokens)
  with valid show "months_from_args (comma_join (map (\<lambda>(k, n). zero_padded k n) kns))
        = Inr (map (\<lambda>(k, n). month_tokens ! (n - 1)) kns)"
    by (simp add: months_from_args_list months_loop_valid)
next
  assume "a' < 1 \<or> 12 < b' \<or> b' < a'"
  then show "isl (months_from_args (zero_padded j' a' @ ''-'' @ zero_padded k' b'))"
    by (simp add: months_from_args_range)
next
  assume "\<exists>(k, n) \<in> set kns'. n < 1 \<or> 12 < n"
  then show "isl (months_from_args (comma_join (map (\<lambda>(k, n). zero_padded k n) kns')))"
    by (simp only: months_from_args_list months_loop_invalid)
next
  show "isl (months_from_args (CHR ''-'' # rest))" by (rule months_from_args_leading_dash)
next
  assume "MAX_STR_DIGITS < length (zero_padded j' a') \<or> MAX_STR_DIGITS < length (zero_padded k' b')"
  then show "isl (months_from_args (zero_padded j' a' @ ''-'' @ zero_padded k' b'))"
    by (simp add: months_from_args_range)
qed

lemma zero_padded_examples:
  "zero_padded (Suc 0) (Suc 0) = ''01''" "zero_padded (Suc 0) 6 = ''06''"
  "zero_padded 0 (Suc 0) = ''1''" "zero_padded 0 2 = ''2''" "zero_padded (Suc 0) 3 = ''03''"
  "zero_padded 0 0 = ''0''" "zero_padded 0 13 = ''13''" "zero_padded 0 6 = ''6''"
  by code_simp+

theorem months_from_args_forms_witness:
  "months_from_args ''01-06'' = Inr [''01'', ''02'', ''03'', ''04'', ''05'', ''06'']
   \<and> months_from_args ''1,2,03'' = Inr [''01'', ''02'', ''03'']
   \<and> isl (months_from_args ''0-6'')
   \<and> isl (months_from_args ''1,13'')
   \<and> isl (months_from_args ''-1-6'')"
  using months_from_args_forms [of 1 6 1 1 "[(0, 1), (0, 2), (1, 3)]" 0 6 0 0 "[(0, 1), (0, 13)]" "''1-6''"]
  by (simp add: zero_padded_examples month_tokens_def upt_rec MAX_STR_DIGITS_def)

section \<open>Properties of the staging stage\<close>

lemma blob_exists_frame:
  assumes "blob_exists b k w = (r, w1)"
  shows "files w1 = files w" "blobs w1 = blobs w" "remove_script w1 = remove_script w"
    "upload_script w1 = upload_script w" "exists_script w1 = tl (exists_script w)"
    "calls w1 = calls w @ [BlobExists b k]"
    "r = (if next_reply False (exists_script w) then Inl CollaboratorError
          else Inr ((b, k) \<in> blobs w))"
  using assms by (auto simp: blob_exists_def log_call_def Let_def split: if_splits)

lemma upload_from_filename_frame:
  assumes "upload_from_filename b k fp w = (r, w1)"
  shows "files w1 = files w" "blobs w \<subseteq> blobs w1" "remove_script w1 = remove_script w"
    "exists_script w1 = exists_script w"
    "calls w1 = calls w @ [UploadFromFilename b k fp]"
  using assms
  by (auto simp: upload_from_filename_def log_call_def Let_def split: if_splits upload_reply.splits prod.splits sum.splits bool.splits)

lemma sleep_frame:
  "files (sleep p w) = files w" "blobs (sleep p w) = blobs w"
  "remove_script (sleep p w) = remove_script w" "exists_script (sleep p w) = exists_script w"
  "upload_script (sleep p w) = upload_script w" "calls (sleep p w) = calls w @ [Sleep p]"
  by (simp_all add: sleep_def log_call_def)

lemma safe_remove_local_frame:
  assumes "safe_remove_local fp w = (r, w1)"
  shows "r = Inr ()" "blobs w1 = blobs w" "exists_script w1 = exists_script w"
    "upload_script w1 = upload_script w"
    "files w1 = (if fp \<noteq> [] \<and> files w fp \<noteq> None \<and> \<not> next_reply False (remove_script w)
                 then (files w)(fp := None) else files w)"
    "calls w1 = calls w @ (if fp \<noteq> [] \<and> files w fp \<noteq> None then [OsRemove fp] else [])"
  using assms
  by (auto simp: safe_remove_local_def safe_remove_local_try_def os_remove_def os_path_exists_def
      log_call_def Let_def split: if_splits)


lemma uploads_of_append: "uploads_of (xs @ ys) = uploads_of xs @ uploads_of ys"
  by (induction xs rule: uploads_of.induct) simp_all

lemma checks_of_append: "checks_of (xs @ ys) = checks_of xs @ checks_of ys"
  by (induction xs rule: checks_of.induct) simp_all

lemma removes_of_append: "removes_of (xs @ ys) = removes_of xs @ removes_of ys"
  by (induction xs rule: removes_of.induct) simp_all

lemma loads_of_append: "loads_of (xs @ ys) = loads_of xs @ loads_of ys"
  by (induction xs rule: loads_of.induct) simp_all


lemma upload_try_cases [consumes 1, case_names pre_raises present upload_raises post_raises
    verified not_verified]:
  assumes "upload_try fp b k w = (r, w')"
  obtains
    (pre_raises) "next_reply False (exists_script w)" "r = Inl CollaboratorError"
      "files w' = files w" "blobs w' = blobs w" "remove_script w' = remove_script w"
      "exists_script w' = tl (exists_script w)" "calls w' = calls w @ [BlobExists b k]"
  | (present) "\<not> next_reply False (exists_script w)" "(b, k) \<in> blobs w"
      "r = Inr (Some (gs_uri b k))" "blobs w' = blobs w"
      "exists_script w' = tl (exists_script w)"
      "files w' = (if fp \<noteq> [] \<and> files w fp \<noteq> None \<and> \<not> next_reply False (remove_script w)
                   then (files w)(fp := None) else files w)"
      "calls w' = calls w @ BlobExists b k #
                   (if fp \<noteq> [] \<and> files w fp \<noteq> None then [OsRemove fp] else [])"
  | (upload_raises) "\<not> next_reply False (exists_script w)" "(b, k) \<notin> blobs w"
      "r = Inl CollaboratorError" "files w' = files w" "blobs w \<subseteq> blobs w'"
      "remove_script w' = remove_script w"
      "calls w' = calls w @ [BlobExists b k, UploadFromFilename b k fp]"
  | (post_raises) "\<not> next_reply False (exists_script w)" "(b, k) \<notin> blobs w"
      "r = Inl CollaboratorError" "files w' = files w" "blobs w \<subseteq> blobs w'"
      "remove_script w' = remove_script w"
      "calls w' = calls w @ [BlobExists b k, UploadFromFilename b k fp, BlobExists b k]"
  | (verified) "\<not> next_reply False (exists_script w)" "(b, k) \<notin> blobs w"
      "r = Inr (Some (gs_uri b k))" "(b, k) \<in> blobs w'" "blobs w \<subseteq> blobs w'"
      "files w fp \<noteq> None"
      "files w' = (if fp \<noteq> [] \<and> \<not> next_reply False (remove_script w)
                   then (files w)(fp := None) else files w)"
      "calls w' = calls w @ [BlobExists b k, UploadFromFilename b k fp, BlobExists b k,
                   Sleep UploadSleep] @ (if fp \<noteq> [] then [OsRemove fp] else [])"
  | (not_verified) "\<not> next_reply False (exists_script w)" "(b, k) \<notin> blobs w"
      "r = Inr None" "files w' = files w" "blobs w \<subseteq> blobs w'"
      "remove_script w' = remove_script w"
      "calls w' = calls w @ [BlobExists b k, UploadFromFilename b k fp, BlobExists b k]"
proof -
  obtain r1 w1 where c1: "blob_exists b k w = (r1, w1)" by (cases "blob_exists b k w")
  note f1 = blob_exists_frame [OF c1]
  show thesis
  proof (cases "next_reply False (exists_script w)")
    case True
    with f1(7) have "r1 = Inl CollaboratorError" by simp
    with c1 assms have "r = Inl CollaboratorError" "w' = w1"
      by (simp_all add: upload_try_def verify_gcs_upload_def)
    with True f1 show thesis by (intro pre_raises) simp_all
  next
    case noraise: False
    show thesis
    proof (cases "(b, k) \<in> blobs w")
      case True
      with noraise f1(7) have r1: "r1 = Inr True" by simp
      obtain r2 w2 where c2: "safe_remove_local fp w1 = (r2, w2)"
        by (cases "safe_remove_local fp w1")
      note f2 = safe_remove_local_frame [OF c2]
      from c1 c2 r1 f2(1) assms have "r = Inr (Some (gs_uri b k))" "w' = w2"
        by (simp_all add: upload_try_def verify_gcs_upload_def)
      with noraise True f1 f2 show thesis by (intro present) simp_all
    next
      case absent: False
      with noraise f1(7) have r1: "r1 = Inr False" by simp
      obtain r2 w2 where c2: "upload_from_filename b k fp w1 = (r2, w2)"
        by (cases "upload_from_filename b k fp w1")
      note f2 = upload_from_filename_frame [OF c2]
      show thesis
      proof (cases r2)
        case (Inl e)
        with c2 have "e = CollaboratorError"
          by (auto simp: upload_from_filename_def Let_def split: if_splits upload_reply.splits)
        with Inl c1 c2 r1 assms have "r = Inl CollaboratorError" "w' = w2"
          by (simp_all add: upload_try_def verify_gcs_upload_def)
        with noraise absent f1 f2 show thesis by (intro upload_raises) simp_all
      next
        case (Inr u)
        with c2 f1(1) have there: "files w fp \<noteq> None"
          by (auto simp: upload_from_filename_def Let_def split: if_splits)
        obtain r3 w3 where c3: "blob_exists b k w2 = (r3, w3)" by (cases "blob_exists b k w2")
        note f3 = blob_exists_frame [OF c3]
        show thesis
        proof (cases r3)
          case (Inl e)
          with f3(7) have "e = CollaboratorError" by (simp split: if_splits)
          with Inl Inr c1 c2 c3 r1 assms have "r = Inl CollaboratorError" "w' = w3"
            by (simp_all add: upload_try_def verify_gcs_upload_def)
          with noraise absent f1 f2 f3 show thesis by (intro post_raises) simp_all
        next
          case (Inr ok)
          show thesis
          proof (cases ok)
            case True
            with \<open>r3 = Inr ok\<close> f3(7) have inb: "(b, k) \<in> blobs w2" by (simp split: if_splits)
            obtain r4 w4 where c4: "safe_remove_local fp (sleep UploadSleep w3) = (r4, w4)"
              by (cases "safe_remove_local fp (sleep UploadSleep w3)")
            note f4 = safe_remove_local_frame [OF c4]
            from True \<open>r3 = Inr ok\<close> \<open>r2 = Inr u\<close> c1 c2 c3 c4 r1 f4(1) assms
            have "r = Inr (Some (gs_uri b k))" "w' = w4"
              by (simp_all add: upload_try_def verify_gcs_upload_def)
            with noraise absent there inb f1 f2 f3 f4 show thesis
              by (intro verified) (simp_all add: sleep_frame)
          next
            case False
            with \<open>r3 = Inr ok\<close> \<open>r2 = Inr u\<close> c1 c2 c3 r1 assms
            have "r = Inr None" "w' = w3"
              by (simp_all add: upload_try_def verify_gcs_upload_def)
            with noraise absent f1 f2 f3 show thesis by (intro not_verified) simp_all
          qed
        qed
      qed
    qed
  qed
qed


lemma leading_raises_next:
  "leading_raises es = (if next_reply False es then Suc (leading_raises (tl es)) else 0)"
  by (cases es) (simp_all add: leading_raises_def next_reply_def)

lemma upload_attempts_outcome:
  assumes "upload_attempts n fp b k w = (r, w')"
  shows "(r = None \<longrightarrow> files w' = files w \<and> removes_of (calls w') = removes_of (calls w))
       \<and> (r \<noteq> None \<longrightarrow>
            r = Some (gs_uri b k) \<and> (b, k) \<in> blobs w'
            \<and> files w' = (if fp \<noteq> [] \<and> files w fp \<noteq> None
                             \<and> \<not> next_reply False (remove_script w)
                          then (files w)(fp := None) else files w)
            \<and> removes_of (calls w') = removes_of (calls w) @
                 (if fp \<noteq> [] \<and> files w fp \<noteq> None then [fp] else []))"
  using assms
proof (induction n arbitrary: w)
  case 0
  then show ?case by simp
next
  case (Suc n)
  obtain r1 w1 where t: "upload_try fp b k w = (r1, w1)" by (cases "upload_try fp b k w")
  let ?w2 = "sleep RetryBackoff w1"
  have retry: ?case
    if fail: "\<forall>u. r1 \<noteq> Inr (Some u)" and same: "files w1 = files w"
      "remove_script w1 = remove_script w" "removes_of (calls w1) = removes_of (calls w)"
  proof -
    from fail t Suc.prems have "upload_attempts n fp b k ?w2 = (r, w')"
      by (cases r1) (auto split: option.splits)
    from Suc.IH [OF this] same show ?thesis by (simp add: sleep_frame removes_of_append)
  qed
  from t show ?case
  proof (cases rule: upload_try_cases)
    case pre_raises
    then show ?thesis by (intro retry) (simp_all add: removes_of_append)
  next
    case present
    with t Suc.prems have "r = Some (gs_uri b k)" "w' = w1" by simp_all
    with present show ?thesis by (simp add: removes_of_append)
  next
    case upload_raises
    then show ?thesis by (intro retry) (simp_all add: removes_of_append)
  next
    case post_raises
    then show ?thesis by (intro retry) (simp_all add: removes_of_append)
  next
    case verified
    with t Suc.prems have "r = Some (gs_uri b k)" "w' = w1" by simp_all
    with verified show ?thesis by (simp add: removes_of_append)
  next
    case not_verified
    then show ?thesis by (intro retry) (simp_all add: removes_of_append)
  qed
qed

lemma upload_attempts_bound:
  assumes "upload_attempts n fp b k w = (r, w')"
  shows "length (uploads_of (calls w')) \<le> length (uploads_of (calls w)) + n
       \<and> length (checks_of (calls w')) \<le> length (checks_of (calls w)) + 2 * n"
  using assms
proof (induction n arbitrary: w)
  case 0
  then show ?case by simp
next
  case (Suc n)
  obtain r1 w1 where t: "upload_try fp b k w = (r1, w1)" by (cases "upload_try fp b k w")
  let ?w2 = "sleep RetryBackoff w1"
  from t have step: "length (uploads_of (calls w1)) \<le> length (uploads_of (calls w)) + 1
       \<and> length (checks_of (calls w1)) \<le> length (checks_of (calls w)) + 2"
    by (cases rule: upload_try_cases) (simp_all add: uploads_of_append checks_of_append)
  show ?case
  proof (cases "\<exists>u. r1 = Inr (Some u)")
    case True
    with t Suc.prems have "w' = w1" by auto
    with step show ?thesis by simp
  next
    case False
    with t Suc.prems have "upload_attempts n fp b k ?w2 = (r, w')"
      by (cases r1) (auto split: option.splits)
    from Suc.IH [OF this] step show ?thesis
      by (simp add: sleep_frame uploads_of_append checks_of_append)
  qed
qed

lemma upload_attempts_present:
  assumes "upload_attempts n fp b k w = (r, w')" "(b, k) \<in> blobs w"
  shows "uploads_of (calls w') = uploads_of (calls w)
       \<and> r = (if leading_raises (exists_script w) < n then Some (gs_uri b k) else None)"
  using assms
proof (induction n arbitrary: w)
  case 0
  then show ?case by simp
next
  case (Suc n)
  obtain r1 w1 where t: "upload_try fp b k w = (r1, w1)" by (cases "upload_try fp b k w")
  let ?w2 = "sleep RetryBackoff w1"
  from t show ?case
  proof (cases rule: upload_try_cases)
    case pre_raises
    with t Suc.prems(1) have "upload_attempts n fp b k ?w2 = (r, w')" by simp
    moreover from pre_raises Suc.prems(2) have "(b, k) \<in> blobs ?w2" by (simp add: sleep_frame)
    ultimately have "uploads_of (calls w') = uploads_of (calls ?w2)
       \<and> r = (if leading_raises (exists_script ?w2) < n then Some (gs_uri b k) else None)"
      by (rule Suc.IH)
    with pre_raises show ?thesis
      using leading_raises_next [of "exists_script w"]
      by (simp add: sleep_frame uploads_of_append)
  next
    case present
    with t Suc.prems(1) have "r = Some (gs_uri b k)" "w' = w1" by simp_all
    with present show ?thesis
      using leading_raises_next [of "exists_script w"]
      by (simp add: uploads_of_append)
  qed (use Suc.prems(2) in simp_all)
qed


lemma safe_remove_local_returns: "fst (safe_remove_local fp w) = Inr ()"
  by (simp add: safe_remove_local_def split: prod.splits sum.splits)

lemma blob_exists_remove_script:
  "blob_exists b k (w\<lparr>remove_script := rs\<rparr>)
     = (fst (blob_exists b k w), (snd (blob_exists b k w))\<lparr>remove_script := rs\<rparr>)"
  by (simp add: blob_exists_def log_call_def Let_def)

lemma upload_from_filename_remove_script:
  "upload_from_filename b k fp (w\<lparr>remove_script := rs\<rparr>)
     = (fst (upload_from_filename b k fp w),
        (snd (upload_from_filename b k fp w))\<lparr>remove_script := rs\<rparr>)"
  by (simp add: upload_from_filename_def log_call_def Let_def split: upload_reply.splits)

lemma sleep_remove_script: "sleep p (w\<lparr>remove_script := rs\<rparr>) = (sleep p w)\<lparr>remove_script := rs\<rparr>"
  by (simp add: sleep_def log_call_def)

lemma upload_try_remove_script:
  "fst (upload_try fp b k (w\<lparr>remove_script := rs\<rparr>)) = fst (upload_try fp b k w)
   \<and> ((\<forall>u. fst (upload_try fp b k w) \<noteq> Inr (Some u)) \<longrightarrow>
        snd (upload_try fp b k (w\<lparr>remove_script := rs\<rparr>))
          = (snd (upload_try fp b k w))\<lparr>remove_script := rs\<rparr>)"
proof -
  obtain r1 w1 where c1: "blob_exists b k w = (r1, w1)" by (cases "blob_exists b k w")
  then have c1': "blob_exists b k (w\<lparr>remove_script := rs\<rparr>) = (r1, w1\<lparr>remove_script := rs\<rparr>)"
    by (simp add: blob_exists_remove_script)
  obtain r2 w2 where c2: "upload_from_filename b k fp w1 = (r2, w2)"
    by (cases "upload_from_filename b k fp w1")
  then have c2': "upload_from_filename b k fp (w1\<lparr>remove_script := rs\<rparr>)
      = (r2, w2\<lparr>remove_script := rs\<rparr>)"
    by (simp add: upload_from_filename_remove_script)
  obtain r3 w3 where c3: "blob_exists b k w2 = (r3, w3)" by (cases "blob_exists b k w2")
  then have c3': "blob_exists b k (w2\<lparr>remove_script := rs\<rparr>) = (r3, w3\<lparr>remove_script := rs\<rparr>)"
    by (simp add: blob_exists_remove_script)
  have rm: "\<And>v. \<exists>v'. safe_remove_local fp v = (Inr (), v')"
    using safe_remove_local_returns by (metis fst_conv surj_pair)
  obtain v1 where s1: "safe_remove_local fp w1 = (Inr (), v1)" using rm by blast
  obtain v1' where s1': "safe_remove_local fp (w1\<lparr>remove_script := rs\<rparr>) = (Inr (), v1')"
    using rm by blast
  obtain v3 where s3: "safe_remove_local fp (sleep UploadSleep w3) = (Inr (), v3)"
    using rm by blast
  obtain v3' where s3': "safe_remove_local fp ((sleep UploadSleep w3)\<lparr>remove_script := rs\<rparr>)
      = (Inr (), v3')"
    using rm by blast
  show ?thesis
    by (simp add: upload_try_def verify_gcs_upload_def c1 c1' c2 c2' c3 c3' s1 s1' s3 s3'
        sleep_remove_script split: sum.splits bool.splits)
qed

lemma upload_attempts_remove_script:
  "fst (upload_attempts n fp b k (w\<lparr>remove_script := rs\<rparr>)) = fst (upload_attempts n fp b k w)"
proof (induction n arbitrary: w)
  case 0
  show ?case by simp
next
  case (Suc n)
  obtain r1 w1 where t: "upload_try fp b k w = (r1, w1)" by (cases "upload_try fp b k w")
  obtain r1' w1' where t': "upload_try fp b k (w\<lparr>remove_script := rs\<rparr>) = (r1', w1')"
    by (cases "upload_try fp b k (w\<lparr>remove_script := rs\<rparr>)")
  from upload_try_remove_script [where fp = fp and b = b and k = k and w = w and rs = rs] t t'
  have r: "r1' = r1" and w: "(\<forall>u. r1 \<noteq> Inr (Some u)) \<longrightarrow> w1' = w1\<lparr>remove_script := rs\<rparr>"
    by simp_all
  show ?case
  proof (cases "\<exists>u. r1 = Inr (Some u)")
    case True
    with t t' r show ?thesis by auto
  next
    case False
    with w have "w1' = w1\<lparr>remove_script := rs\<rparr>" by simp
    with False t t' r Suc.IH [of "sleep RetryBackoff w1"] show ?thesis
      by (cases r1) (auto simp: sleep_remove_script split: option.splits)
  qed
qed

lemmas staging_eval =
  upload_to_gcs_def upload_to_gcs_hw_def blob_name_of_def os_path_basename_def strip_slash_def
  upload_try_def verify_gcs_upload_def blob_exists_def upload_from_filename_def
  safe_remove_local_def safe_remove_local_try_def os_remove_def os_path_exists_def
  sleep_def log_call_def next_reply_def gs_uri_def Let_def
  fresh_world_def staged_world_def example_file_def numeral_3_eq_3


text \<open>
  C10, cleanup totality. \<open>safe_remove_local\<close> returns for every path and every world; a
  missing file or an empty path leaves the world as it is, a failing delete leaves the
  files as they are; and whether deletes fail does not change what \<open>upload_to_gcs\<close>
  returns, in either script.
\<close>

theorem safe_remove_local_never_raises:
  "fst (safe_remove_local file_path w) = Inr ()
   \<and> (file_path = [] \<or> files w file_path = None \<longrightarrow> safe_remove_local file_path w = (Inr (), w))
   \<and> (next_reply False (remove_script w) \<longrightarrow>
        files (snd (safe_remove_local file_path w)) = files w)
   \<and> fst (upload_to_gcs file_path bucket_name gcs_prefix max_retries
             (w\<lparr>remove_script := cleanup\<rparr>))
       = fst (upload_to_gcs file_path bucket_name gcs_prefix max_retries w)
   \<and> fst (upload_to_gcs_hw bucket_name file_path max_retries (w\<lparr>remove_script := cleanup\<rparr>))
       = fst (upload_to_gcs_hw bucket_name file_path max_retries w)"
proof (intro conjI impI)
  show "fst (safe_remove_local file_path w) = Inr ()" by (rule safe_remove_local_returns)
next
  assume "file_path = [] \<or> files w file_path = None"
  then show "safe_remove_local file_path w = (Inr (), w)"
    by (auto simp: safe_remove_local_def safe_remove_local_try_def os_path_exists_def)
next
  assume raises: "next_reply False (remove_script w)"
  obtain r w1 where c: "safe_remove_local file_path w = (r, w1)"
    by (cases "safe_remove_local file_path w")
  from safe_remove_local_frame(5) [OF c] raises c
  show "files (snd (safe_remove_local file_path w)) = files w" by simp
next
  show "fst (upload_to_gcs file_path bucket_name gcs_prefix max_retries
               (w\<lparr>remove_script := cleanup\<rparr>))
          = fst (upload_to_gcs file_path bucket_name gcs_prefix max_retries w)"
    by (simp add: upload_to_gcs_def upload_attempts_remove_script)
next
  have "fst (upload_attempts (nat max_retries) file_path bucket_name
               (os_path_basename file_path) (w\<lparr>remove_script := cleanup\<rparr>))
          = fst (upload_attempts (nat max_retries) file_path bucket_name
               (os_path_basename file_path) w)"
    by (rule upload_attempts_remove_script)
  then show "fst (upload_to_gcs_hw bucket_name file_path max_retries
                    (w\<lparr>remove_script := cleanup\<rparr>))
          = fst (upload_to_gcs_hw bucket_name file_path max_retries w)"
    by (simp add: upload_to_gcs_hw_def Let_def case_prod_beta)
qed

theorem safe_remove_local_never_raises_witness:
  "next_reply False (remove_script (fresh_world\<lparr>remove_script := [True]\<rparr>))
   \<and> fst (safe_remove_local example_file (fresh_world\<lparr>remove_script := [True]\<rparr>)) = Inr ()
   \<and> files (snd (safe_remove_local example_file (fresh_world\<lparr>remove_script := [True]\<rparr>)))
       = files (fresh_world\<lparr>remove_script := [True]\<rparr>)
   \<and> safe_remove_local [] fresh_world = (Inr (), fresh_world)"
  using safe_remove_local_never_raises
    [of example_file "fresh_world\<lparr>remove_script := [True]\<rparr>"]
    safe_remove_local_never_raises [of "[]" fresh_world]
  by (simp add: next_reply_def)

text \<open>
  C2, retry bound and exhaustion. For every file, every world and every \<open>max_retries\<close>
  (a negative one counts as zero), \<open>upload_to_gcs\<close> returns after at most \<open>max_retries\<close>
  uploads and at most two existence checks for each of them; it returns \<open>None\<close> when the
  blob is not in the bucket at the end, and when it returns \<open>None\<close> the local files are
  what they were and no delete was tried.
\<close>

theorem upload_to_gcs_retry_bound:
  "length (uploads_of (calls (snd (upload_to_gcs file_path bucket_name gcs_prefix max_retries w))))
     \<le> length (uploads_of (calls w)) + nat max_retries
   \<and> length (checks_of (calls (snd (upload_to_gcs file_path bucket_name gcs_prefix max_retries w))))
     \<le> length (checks_of (calls w)) + 2 * nat max_retries
   \<and> ((bucket_name, blob_name_of file_path gcs_prefix)
          \<notin> blobs (snd (upload_to_gcs file_path bucket_name gcs_prefix max_retries w)) \<longrightarrow>
        fst (upload_to_gcs file_path bucket_name gcs_prefix max_retries w) = None)
   \<and> (fst (upload_to_gcs file_path bucket_name gcs_prefix max_retries w) = None \<longrightarrow>
        files (snd (upload_to_gcs file_path bucket_name gcs_prefix max_retries w)) = files w
        \<and> removes_of (calls (snd (upload_to_gcs file_path bucket_name gcs_prefix max_retries w)))
            = removes_of (calls w))"
proof -
  obtain r w' where run: "upload_to_gcs file_path bucket_name gcs_prefix max_retries w = (r, w')"
    by (cases "upload_to_gcs file_path bucket_name gcs_prefix max_retries w")
  then have att: "upload_attempts (nat max_retries) file_path bucket_name
      (blob_name_of file_path gcs_prefix) w = (r, w')"
    by (simp add: upload_to_gcs_def)
  from upload_attempts_bound [OF att] upload_attempts_outcome [OF att] run
  show ?thesis by auto
qed

theorem upload_to_gcs_retry_bound_witness:
  "fst (upload_to_gcs example_file ''bucket'' [] 3
          (fresh_world\<lparr>upload_script := [Lost, UploadRaises, Lost]\<rparr>)) = None
   \<and> files (snd (upload_to_gcs example_file ''bucket'' [] 3
          (fresh_world\<lparr>upload_script := [Lost, UploadRaises, Lost]\<rparr>))) example_file = Some 10
   \<and> length (uploads_of (calls (snd (upload_to_gcs example_file ''bucket'' [] 3
          (fresh_world\<lparr>upload_script := [Lost, UploadRaises, Lost]\<rparr>))))) \<le> 3"
proof -
  have none: "fst (upload_to_gcs example_file ''bucket'' [] 3
          (fresh_world\<lparr>upload_script := [Lost, UploadRaises, Lost]\<rparr>)) = None"
    by (simp add: staging_eval)
  have "files (fresh_world\<lparr>upload_script := [Lost, UploadRaises, Lost]\<rparr>) example_file = Some 10"
    "uploads_of (calls (fresh_world\<lparr>upload_script := [Lost, UploadRaises, Lost]\<rparr>)) = []"
    by (simp_all add: fresh_world_def)
  with none upload_to_gcs_retry_bound [of example_file "''bucket''" "[]" 3
      "fresh_world\<lparr>upload_script := [Lost, UploadRaises, Lost]\<rparr>"]
  show ?thesis by simp
qed

text \<open>
  C1 as amended, idempotent staging. When the blob of the file is already in the bucket,
  \<open>upload_to_gcs\<close> calls no upload, whatever else happens. It returns the URI of the blob
  as soon as an existence check answers, which is the case when fewer than \<open>max_retries\<close>
  checks raise in a row, and \<open>None\<close> otherwise (so always \<open>None\<close> for \<open>max_retries \<le> 0\<close>).
  When it returns the URI it has asked once for the delete of the local file if there is
  one, and the file is gone unless \<open>os.remove\<close> raised. The homework script returns
  \<open>True\<close> in place of the URI.
\<close>

theorem staging_idempotent:
  assumes "(bucket_name, blob_name_of file_path gcs_prefix) \<in> blobs w"
  shows
    "uploads_of (calls (snd (upload_to_gcs file_path bucket_name gcs_prefix max_retries w)))
       = uploads_of (calls w)
     \<and> fst (upload_to_gcs file_path bucket_name gcs_prefix max_retries w)
       = (if leading_raises (exists_script w) < nat max_retries
          then Some (gs_uri bucket_name (blob_name_of file_path gcs_prefix)) else None)
     \<and> (fst (upload_to_gcs file_path bucket_name gcs_prefix max_retries w) \<noteq> None \<longrightarrow>
          removes_of (calls (snd (upload_to_gcs file_path bucket_name gcs_prefix max_retries w)))
            = removes_of (calls w)
                @ (if file_path \<noteq> [] \<and> files w file_path \<noteq> None then [file_path] else [])
          \<and> (file_path \<noteq> [] \<and> \<not> next_reply False (remove_script w) \<longrightarrow>
               files (snd (upload_to_gcs file_path bucket_name gcs_prefix max_retries w))
                 file_path = None))
     \<and> (gcs_prefix = [] \<longrightarrow>
          fst (upload_to_gcs_hw bucket_name file_path max_retries w)
            = (leading_raises (exists_script w) < nat max_retries)
          \<and> uploads_of (calls (snd (upload_to_gcs_hw bucket_name file_path max_retries w)))
            = uploads_of (calls w))"
proof -
  let ?k = "blob_name_of file_path gcs_prefix"
  obtain r w' where run: "upload_to_gcs file_path bucket_name gcs_prefix max_retries w = (r, w')"
    by (cases "upload_to_gcs file_path bucket_name gcs_prefix max_retries w")
  then have att: "upload_attempts (nat max_retries) file_path bucket_name ?k w = (r, w')"
    by (simp add: upload_to_gcs_def)
  note present = upload_attempts_present [OF att assms]
  note outcome = upload_attempts_outcome [OF att]
  have hw: "fst (upload_to_gcs_hw bucket_name file_path max_retries w)
            = (leading_raises (exists_script w) < nat max_retries)
          \<and> uploads_of (calls (snd (upload_to_gcs_hw bucket_name file_path max_retries w)))
            = uploads_of (calls w)" if "gcs_prefix = []"
  proof -
    from that have "?k = os_path_basename file_path"
      by (simp add: blob_name_of_def strip_slash_def)
    with att have "upload_attempts (nat max_retries) file_path bucket_name
        (os_path_basename file_path) w = (r, w')" by simp
    with present show ?thesis by (simp add: upload_to_gcs_hw_def)
  qed
  from present outcome run hw show ?thesis by simp
qed

theorem staging_idempotent_witness:
  "(''bucket'', blob_name_of example_file []) \<in> blobs staged_world
   \<and> fst (upload_to_gcs example_file ''bucket'' [] 3 staged_world)
       = Some ''gs://bucket/green_tripdata_2020-01.csv.gz''
   \<and> uploads_of (calls (snd (upload_to_gcs example_file ''bucket'' [] 3 staged_world))) = []
   \<and> files (snd (upload_to_gcs example_file ''bucket'' [] 3 staged_world)) example_file = None
   \<and> fst (upload_to_gcs_hw ''bucket'' example_file 3 staged_world)"
proof -
  have pre: "(''bucket'', blob_name_of example_file []) \<in> blobs staged_world"
    by (simp add: staging_eval)
  have facts: "leading_raises (exists_script staged_world) = 0" "calls staged_world = []"
    "example_file \<noteq> []" "\<not> next_reply False (remove_script staged_world)"
    "gs_uri ''bucket'' (blob_name_of example_file []) = ''gs://bucket/green_tripdata_2020-01.csv.gz''"
    by (simp_all add: staging_eval leading_raises_def)
  from staging_idempotent [OF pre, of 3] pre facts show ?thesis by simp
qed

theorem staging_idempotent_counterexample:
  "(''bucket'', blob_name_of example_file []) \<in> blobs staged_world
   \<and> fst (upload_to_gcs example_file ''bucket'' [] 0 staged_world) = None
   \<and> files (snd (upload_to_gcs example_file ''bucket'' [] 0 staged_world)) example_file = Some 10
   \<and> fst (upload_to_gcs example_file ''bucket'' [] 3 (staged_world\<lparr>remove_script := [True]\<rparr>))
       = Some ''gs://bucket/green_tripdata_2020-01.csv.gz''
   \<and> files (snd (upload_to_gcs example_file ''bucket'' [] 3
                   (staged_world\<lparr>remove_script := [True]\<rparr>))) example_file = Some 10
   \<and> fst (upload_to_gcs example_file ''bucket'' [] 3
            (staged_world\<lparr>exists_script := [True, True, True]\<rparr>)) = None"
  by (simp add: staging_eval)

text \<open>
  C3 as amended, local deletion only if verified. In every run of \<open>upload_to_gcs\<close> the
  local file is deleted only if the blob was verified present, which is when the URI is
  returned; no other file is touched. When the blob is verified, the delete of the local
  file is asked once if the file is there, and the file is gone unless \<open>os.remove\<close>
  raised. When \<open>None\<close> is returned, and in every attempt that does not return the URI
  (a check or the upload raised, or the verification failed), the files stay as they
  were and no delete is tried.
\<close>

theorem local_deleted_only_if_verified:
  "(files w file_path \<noteq> None
      \<and> files (snd (upload_to_gcs file_path bucket_name gcs_prefix max_retries w)) file_path = None
     \<longrightarrow> fst (upload_to_gcs file_path bucket_name gcs_prefix max_retries w) \<noteq> None
        \<and> (bucket_name, blob_name_of file_path gcs_prefix)
            \<in> blobs (snd (upload_to_gcs file_path bucket_name gcs_prefix max_retries w)))
   \<and> (fst (upload_to_gcs file_path bucket_name gcs_prefix max_retries w) \<noteq> None \<longrightarrow>
        (bucket_name, blob_name_of file_path gcs_prefix)
          \<in> blobs (snd (upload_to_gcs file_path bucket_name gcs_prefix max_retries w))
        \<and> removes_of (calls (snd (upload_to_gcs file_path bucket_name gcs_prefix max_retries w)))
            = removes_of (calls w)
                @ (if file_path \<noteq> [] \<and> files w file_path \<noteq> None then [file_path] else [])
        \<and> (file_path \<noteq> [] \<and> \<not> next_reply False (remove_script w) \<longrightarrow>
             files (snd (upload_to_gcs file_path bucket_name gcs_prefix max_retries w))
               file_path = None))
   \<and> (fst (upload_to_gcs file_path bucket_name gcs_prefix max_retries w) = None \<longrightarrow>
        files (snd (upload_to_gcs file_path bucket_name gcs_prefix max_retries w)) = files w
        \<and> removes_of (calls (snd (upload_to_gcs file_path bucket_name gcs_prefix max_retries w)))
            = removes_of (calls w))
   \<and> (other \<noteq> file_path \<longrightarrow>
        files (snd (upload_to_gcs file_path bucket_name gcs_prefix max_retries w)) other
          = files w other)
   \<and> ((\<forall>uri. fst (upload_try file_path bucket_name blob_name w) \<noteq> Inr (Some uri)) \<longrightarrow>
        files (snd (upload_try file_path bucket_name blob_name w)) = files w
        \<and> removes_of (calls (snd (upload_try file_path bucket_name blob_name w)))
            = removes_of (calls w))"
proof -
  let ?k = "blob_name_of file_path gcs_prefix"
  obtain r w' where run: "upload_to_gcs file_path bucket_name gcs_prefix max_retries w = (r, w')"
    by (cases "upload_to_gcs file_path bucket_name gcs_prefix max_retries w")
  then have att: "upload_attempts (nat max_retries) file_path bucket_name ?k w = (r, w')"
    by (simp add: upload_to_gcs_def)
  note outcome = upload_attempts_outcome [OF att]
  obtain r1 w1 where t: "upload_try file_path bucket_name blob_name w = (r1, w1)"
    by (cases "upload_try file_path bucket_name blob_name w")
  have failed: "files w' = files w \<and> removes_of (calls w') = removes_of (calls w)"
    if "r = None"
    using outcome that by simp
  have verified: "(bucket_name, ?k) \<in> blobs w'
        \<and> removes_of (calls w') = removes_of (calls w)
              @ (if file_path \<noteq> [] \<and> files w file_path \<noteq> None then [file_path] else [])
        \<and> (file_path \<noteq> [] \<and> \<not> next_reply False (remove_script w) \<longrightarrow>
             files w' file_path = None)"
    if "r \<noteq> None"
    using outcome that by simp
  have deleted: "r \<noteq> None \<and> (bucket_name, ?k) \<in> blobs w'"
    if "files w file_path \<noteq> None \<and> files w' file_path = None"
  proof (cases r)
    case None
    with failed have "files w' = files w" by simp
    with that show ?thesis by auto
  next
    case (Some u)
    with verified show ?thesis by simp
  qed
  have others: "files w' other = files w other" if "other \<noteq> file_path"
  proof (cases r)
    case None
    with failed show ?thesis by simp
  next
    case (Some u)
    with outcome that show ?thesis by simp
  qed
  have attempt: "files w1 = files w \<and> removes_of (calls w1) = removes_of (calls w)"
    if "\<forall>uri. r1 \<noteq> Inr (Some uri)"
    using t that by (cases rule: upload_try_cases) (simp_all add: removes_of_append)
  show ?thesis
    unfolding run t fst_conv snd_conv
    using deleted verified failed others attempt by blast
qed


theorem local_deleted_only_if_verified_witness:
  "(files fresh_world example_file \<noteq> None
    \<and> files (snd (upload_to_gcs example_file ''bucket'' [] 3 fresh_world)) example_file = None)
   \<and> (fst (upload_to_gcs example_file ''bucket'' [] 3 fresh_world) \<noteq> None
    \<and> (''bucket'', blob_name_of example_file [])
        \<in> blobs (snd (upload_to_gcs example_file ''bucket'' [] 3 fresh_world)))
   \<and> fst (upload_to_gcs example_file ''bucket'' [] 3
            (fresh_world\<lparr>upload_script := [Lost, UploadRaises, Lost]\<rparr>)) = None
   \<and> files (snd (upload_to_gcs example_file ''bucket'' [] 3
            (fresh_world\<lparr>upload_script := [Lost, UploadRaises, Lost]\<rparr>)))
       = files (fresh_world\<lparr>upload_script := [Lost, UploadRaises, Lost]\<rparr>)"
proof -
  have deleted: "files fresh_world example_file \<noteq> None
    \<and> files (snd (upload_to_gcs example_file ''bucket'' [] 3 fresh_world)) example_file = None"
    by (simp add: staging_eval)
  have failed: "fst (upload_to_gcs example_file ''bucket'' [] 3
            (fresh_world\<lparr>upload_script := [Lost, UploadRaises, Lost]\<rparr>)) = None"
    by (simp add: staging_eval)
  note ok = local_deleted_only_if_verified
    [of fresh_world example_file "''bucket''" "[]" 3 example_file "''blob''"]
  note ko = local_deleted_only_if_verified
    [of "fresh_world\<lparr>upload_script := [Lost, UploadRaises, Lost]\<rparr>" example_file
      "''bucket''" "[]" 3 example_file "''blob''"]
  from ok deleted have "fst (upload_to_gcs example_file ''bucket'' [] 3 fresh_world) \<noteq> None
    \<and> (''bucket'', blob_name_of example_file [])
        \<in> blobs (snd (upload_to_gcs example_file ''bucket'' [] 3 fresh_world))"
    by blast
  moreover from ko failed
  have "files (snd (upload_to_gcs example_file ''bucket'' [] 3
            (fresh_world\<lparr>upload_script := [Lost, UploadRaises, Lost]\<rparr>)))
       = files (fresh_world\<lparr>upload_script := [Lost, UploadRaises, Lost]\<rparr>)"
    by blast
  ultimately show ?thesis using deleted failed by blast
qed

theorem local_deleted_iff_verified_counterexample:
  "fst (upload_to_gcs example_file ''bucket'' [] 3 (fresh_world\<lparr>remove_script := [True]\<rparr>))
     = Some ''gs://bucket/green_tripdata_2020-01.csv.gz''
   \<and> (''bucket'', ''green_tripdata_2020-01.csv.gz'')
       \<in> blobs (snd (upload_to_gcs example_file ''bucket'' [] 3
                       (fresh_world\<lparr>remove_script := [True]\<rparr>)))
   \<and> checks_of (calls (snd (upload_to_gcs example_file ''bucket'' [] 3
                       (fresh_world\<lparr>remove_script := [True]\<rparr>))))
       = [''green_tripdata_2020-01.csv.gz'', ''green_tripdata_2020-01.csv.gz'']
   \<and> files (snd (upload_to_gcs example_file ''bucket'' [] 3
                       (fresh_world\<lparr>remove_script := [True]\<rparr>))) example_file = Some 10"
  by (simp add: staging_eval)

section \<open>Partition field and schema\<close>

lemma green_partition_field_declared:
  "SchemaField ''lpep_dropoff_datetime'' ''TIMESTAMP''
     ''The date and time when the meter was disengaged'' \<in> set green_schema"
  by (simp add: green_schema_def)

lemma yellow_partition_field_declared:
  "SchemaField ''tpep_dropoff_datetime'' ''TIMESTAMP''
     ''The date and time when the meter was disengaged'' \<in> set yellow_schema"
  by (simp add: yellow_schema_def)

text \<open>
  C8, partition field and schema agree. For a taxi type that is \<open>yellow\<close> or \<open>green\<close>
  once in lower case, \<open>get_partition_field\<close> and \<open>get_bq_schema\<close> both return, and the
  partition field is the name of a field of the schema whose type is \<open>TIMESTAMP\<close>.
\<close>

theorem partition_field_in_schema:
  assumes "lower taxi_type = ''yellow'' \<or> lower taxi_type = ''green''"
  shows "\<exists>partition_field schema.
           get_partition_field taxi_type = Inr partition_field
           \<and> get_bq_schema taxi_type = Inr schema
           \<and> (\<exists>field \<in> set schema.
                 name field = partition_field \<and> field_type field = ''TIMESTAMP'')"
  using assms
proof
  assume "lower taxi_type = ''yellow''"
  then have "get_partition_field taxi_type = Inr ''tpep_dropoff_datetime''"
    "get_bq_schema taxi_type = Inr yellow_schema"
    by (simp_all add: get_partition_field_def get_bq_schema_def)
  with yellow_partition_field_declared show ?thesis by force
next
  assume "lower taxi_type = ''green''"
  then have "get_partition_field taxi_type = Inr ''lpep_dropoff_datetime''"
    "get_bq_schema taxi_type = Inr green_schema"
    by (simp_all add: get_partition_field_def get_bq_schema_def)
  with green_partition_field_declared show ?thesis by force
qed

lemma lower_examples: "lower ''Yellow'' = ''yellow''" "lower ''green'' = ''green''"
  by code_simp+

theorem partition_field_in_schema_witness:
  "(lower ''Yellow'' = ''yellow'' \<or> lower ''Yellow'' = ''green'')
   \<and> (\<exists>partition_field schema.
           get_partition_field ''Yellow'' = Inr partition_field
           \<and> get_bq_schema ''Yellow'' = Inr schema
           \<and> (\<exists>field \<in> set schema.
                 name field = partition_field \<and> field_type field = ''TIMESTAMP''))
   \<and> (lower ''green'' = ''yellow'' \<or> lower ''green'' = ''green'')
   \<and> (\<exists>partition_field schema.
           get_partition_field ''green'' = Inr partition_field
           \<and> get_bq_schema ''green'' = Inr schema
           \<and> (\<exists>field \<in> set schema.
                 name field = partition_field \<and> field_type field = ''TIMESTAMP''))"
proof -
  have y: "lower ''Yellow'' = ''yellow'' \<or> lower ''Yellow'' = ''green''"
    and g: "lower ''green'' = ''yellow'' \<or> lower ''green'' = ''green''"
    by (simp_all add: lower_examples)
  from y g partition_field_in_schema [OF y] partition_field_in_schema [OF g]
  show ?thesis by blast
qed

section \<open>Properties of the load loop\<close>

lemma first_failure_step:
  "first_failure script =
     (if next_reply False script then Some 0 else map_option Suc (first_failure (tl script)))"
  by (cases script) (simp_all add: next_reply_def)

lemma load_each_loads:
  "loads_of (calls (snd (load_each p d t f sc wd uris w)))
     = loads_of (calls w)
         @ (case first_failure (load_script w) of None \<Rightarrow> uris | Some i \<Rightarrow> take (Suc i) uris)
   \<and> fst (load_each p d t f sc wd uris w)
     = (case first_failure (load_script w) of
          None \<Rightarrow> Inr ()
        | Some i \<Rightarrow> if i < length uris then Inl CollaboratorError else Inr ())"
proof (induction uris arbitrary: w)
  case Nil
  show ?case by (simp split: option.splits)
next
  case (Cons uri uris)
  let ?w1 = "log_call (LoadTableFromUri uri (p @ ''.'' @ d @ ''.'' @ t))
               (w\<lparr>load_script := tl (load_script w)\<rparr>)"
  have step: "load_csv_to_bq p d t uri f sc wd w
      = (if next_reply False (load_script w) then Inl CollaboratorError else Inr (), ?w1)"
    by (simp add: load_csv_to_bq_def load_table_from_uri_def Let_def)
  have w1: "load_script ?w1 = tl (load_script w)"
    "loads_of (calls ?w1) = loads_of (calls w) @ [uri]"
    by (simp_all add: log_call_def loads_of_append)
  show ?case
  proof (cases "next_reply False (load_script w)")
    case True
    with step w1 first_failure_step [of "load_script w"] show ?thesis by simp
  next
    case False
    with step have "load_each p d t f sc wd (uri # uris) w = load_each p d t f sc wd uris ?w1"
      by simp
    with Cons [of ?w1] w1 False first_failure_step [of "load_script w"] show ?thesis
      by (simp split: option.splits)
  qed
qed

lemma sort_example: "sort [''b'', ''a'', ''c''] = [''a'', ''b'', ''c'']"
  by simp

section \<open>Properties of \<open>main\<close>\<close>

lemma blank_batches: "chunked ([] :: string list) 3 = Inr []"
  by (simp add: chunked_def chunked_from.simps)

lemma collect_results_append: "collect_results rs acc = Inr out \<Longrightarrow> \<exists>new. out = acc @ new"
  by (induction rs acc rule: collect_results.induct) (auto split: if_splits)

lemma process_batches_grows:
  "process_batches a batches (retrieved0, uploaded0) w = (Inr (retrieved, uploaded), w1) \<Longrightarrow>
     \<exists>files uris. retrieved = retrieved0 @ files \<and> uploaded = uploaded0 @ uris
                  \<and> (files = [] \<longrightarrow> uris = [])"
proof (induction batches arbitrary: retrieved0 uploaded0 w)
  case Nil
  then show ?case by simp
next
  case (Cons month_batch rest)
  obtain results w2 where d: "submit_downloads (args_taxi_type a) (args_year a) month_batch w
      = (results, w2)"
    by (cases "submit_downloads (args_taxi_type a) (args_year a) month_batch w")
  show ?case
  proof (cases "collect_results results []")
    case (Inl e)
    with d Cons.prems show ?thesis by simp
  next
    case (Inr downloaded_files)
    show ?thesis
    proof (cases "downloaded_files = []")
      case True
      with d Inr Cons.prems
      have "process_batches a rest (retrieved0, uploaded0) w2 = (Inr (retrieved, uploaded), w1)"
        by simp
      then show ?thesis by (rule Cons.IH)
    next
      case False
      obtain staged w3 where u: "submit_uploads downloaded_files (args_bucket a)
          (args_gcs_prefix a) w2 = (staged, w3)"
        by (cases "submit_uploads downloaded_files (args_bucket a) (args_gcs_prefix a) w2")
      show ?thesis
      proof (cases "collect_results staged uploaded0")
        case (Inl e)
        with d \<open>collect_results results [] = Inr downloaded_files\<close> False u Cons.prems
        show ?thesis by simp
      next
        case (Inr uris)
        then obtain new where new: "uris = uploaded0 @ new"
          by (auto dest: collect_results_append)
        from d \<open>collect_results results [] = Inr downloaded_files\<close> False u Inr Cons.prems
        have "process_batches a rest (retrieved0 @ downloaded_files, uris) w3
            = (Inr (retrieved, uploaded), w1)"
          by simp
        from Cons.IH [OF this] new False show ?thesis by auto
      qed
    qed
  qed
qed

lemma batch_phase_staged_retrieved:
  assumes "batch_phase a w = (Inr (retrieved, uploaded), w1)" "retrieved = []"
  shows "uploaded = []"
proof -
  from assms(1) obtain batches where
    "process_batches a batches ([], []) w = (Inr (retrieved, uploaded), w1)"
    by (auto simp: batch_phase_def split: sum.splits)
  from process_batches_grows [OF this] assms(2) show ?thesis by auto
qed


lemma exit_code_error: "e \<noteq> SystemExit 0 \<Longrightarrow> exit_code (Inl e) \<noteq> 0"
  by (cases e) (simp_all add: exit_code_def)

lemma invalid_taxi_type_exit: "invalid_taxi_type \<noteq> SystemExit 0"
  by (simp add: invalid_taxi_type_def)

lemma get_partition_field_error: "get_partition_field t = Inl e \<Longrightarrow> e \<noteq> SystemExit 0"
  by (auto simp: get_partition_field_def Let_def invalid_taxi_type_def split: if_splits)

lemma get_bq_schema_error: "get_bq_schema t = Inl e \<Longrightarrow> e \<noteq> SystemExit 0"
  by (auto simp: get_bq_schema_def Let_def invalid_taxi_type_def split: if_splits)

lemma python_int_error: "python_int s = Inl e \<Longrightarrow> e \<noteq> SystemExit 0"
  by (auto simp: python_int_def int_of_digits_def invalid_literal_def digits_limit_exceeded_def
      split: list.splits if_splits option.splits sum.splits)

lemma months_loop_error: "months_loop ps out = Inl e \<Longrightarrow> e \<noteq> SystemExit 0"
  by (induction ps arbitrary: out) (auto split: sum.splits if_splits dest: python_int_error)

lemma months_from_args_error: "months_from_args s = Inl e \<Longrightarrow> e \<noteq> SystemExit 0"
  by (auto simp: months_from_args_def Let_def split: if_splits sum.splits
      dest: python_int_error months_loop_error)

lemma ensure_bucket_error: "ensure_bucket b w = Inl e \<Longrightarrow> e \<noteq> SystemExit 0"
  by (auto simp: ensure_bucket_def split: if_splits lookup_reply.splits)

lemma ensure_bq_dataset_error: "ensure_bq_dataset p d l w = Inl e \<Longrightarrow> e \<noteq> SystemExit 0"
  by (auto simp: ensure_bq_dataset_def split: if_splits lookup_reply.splits)

lemma download_file_error: "download_file t y m w = (Inl e, w1) \<Longrightarrow> e \<noteq> SystemExit 0"
  by (auto simp: download_file_def get_base_url_def Let_def invalid_taxi_type_def
      split: sum.splits if_splits prod.splits)

lemma submit_downloads_errors:
  "submit_downloads t y ms w = (rs, w1) \<Longrightarrow> Inl e \<in> set rs \<Longrightarrow> e \<noteq> SystemExit 0"
proof (induction ms arbitrary: w rs w1)
  case Nil
  then show ?case by simp
next
  case (Cons m ms)
  obtain r w2 where d: "download_file t y m w = (r, w2)" by (cases "download_file t y m w")
  obtain rs' w3 where r: "submit_downloads t y ms w2 = (rs', w3)"
    by (cases "submit_downloads t y ms w2")
  from d r Cons.prems(1) have rs: "rs = r # rs'" by simp
  with Cons.prems(2) have "r = Inl e \<or> Inl e \<in> set rs'" by auto
  then show ?case
  proof
    assume "r = Inl e"
    with d show ?thesis by (auto dest: download_file_error)
  next
    assume "Inl e \<in> set rs'"
    with r show ?thesis by (rule Cons.IH)
  qed
qed

lemma submit_uploads_no_error: "submit_uploads fps b p w = (rs, w1) \<Longrightarrow> Inl e \<notin> set rs"
proof (induction fps arbitrary: w rs w1)
  case Nil
  then show ?case by simp
next
  case (Cons fp fps)
  obtain r w2 where "upload_to_gcs fp b p 3 w = (r, w2)" by (cases "upload_to_gcs fp b p 3 w")
  moreover obtain rs' w3 where r: "submit_uploads fps b p w2 = (rs', w3)"
    by (cases "submit_uploads fps b p w2")
  ultimately have "rs = Inr r # rs'" using Cons.prems by simp
  with Cons.IH [OF r] show ?case by simp
qed

lemma collect_results_error: "collect_results rs acc = Inl e \<Longrightarrow> Inl e \<in> set rs"
  by (induction rs acc rule: collect_results.induct) (auto split: if_splits)

lemma process_batches_error:
  "process_batches a batches acc w = (Inl e, w1) \<Longrightarrow> e \<noteq> SystemExit 0"
proof (induction batches arbitrary: acc w)
  case Nil
  then show ?case by simp
next
  case (Cons month_batch rest)
  obtain retrieved0 uploaded0 where acc: "acc = (retrieved0, uploaded0)" by (cases acc)
  obtain results w2 where d: "submit_downloads (args_taxi_type a) (args_year a) month_batch w
      = (results, w2)"
    by (cases "submit_downloads (args_taxi_type a) (args_year a) month_batch w")
  show ?case
  proof (cases "collect_results results []")
    case (Inl e')
    with d acc Cons.prems have "e' = e" by simp
    with Inl have "Inl e \<in> set results" by (auto dest: collect_results_error)
    with d show ?thesis by (rule submit_downloads_errors)
  next
    case (Inr downloaded_files)
    show ?thesis
    proof (cases "downloaded_files = []")
      case True
      with d Inr acc Cons.prems
      have "process_batches a rest (retrieved0, uploaded0) w2 = (Inl e, w1)" by simp
      then show ?thesis by (rule Cons.IH)
    next
      case False
      obtain staged w3 where u: "submit_uploads downloaded_files (args_bucket a)
          (args_gcs_prefix a) w2 = (staged, w3)"
        by (cases "submit_uploads downloaded_files (args_bucket a) (args_gcs_prefix a) w2")
      show ?thesis
      proof (cases "collect_results staged uploaded0")
        case (Inl e')
        then have "Inl e' \<in> set staged" by (rule collect_results_error)
        with u show ?thesis by (auto dest: submit_uploads_no_error)
      next
        case (Inr uris)
        with d \<open>collect_results results [] = Inr downloaded_files\<close> False u acc Cons.prems
        have "process_batches a rest (retrieved0 @ downloaded_files, uris) w3 = (Inl e, w1)"
          by simp
        then show ?thesis by (rule Cons.IH)
      qed
    qed
  qed
qed

lemma batch_phase_error: "batch_phase a w = (Inl e, w1) \<Longrightarrow> e \<noteq> SystemExit 0"
  by (auto simp: batch_phase_def chunked_def split: sum.splits
      dest: months_from_args_error process_batches_error)


lemma main_unfolded:
  "main a w =
     (let bq_project = (if args_bq_project a = [] then client_project w else args_bq_project a)
      in case get_partition_field (args_taxi_type a) of
           Inl e \<Rightarrow> (Inl e, w)
         | Inr partition_field \<Rightarrow>
        (case get_bq_schema (args_taxi_type a) of
           Inl e \<Rightarrow> (Inl e, w)
         | Inr schema \<Rightarrow>
        (case months_from_args (args_months a) of
           Inl e \<Rightarrow> (Inl e, w)
         | Inr months \<Rightarrow>
        (case ensure_bucket (args_bucket a) w of
           Inl e \<Rightarrow> (Inl e, w)
         | Inr u \<Rightarrow>
        (case ensure_bq_dataset bq_project (args_bq_dataset a) (args_bq_location a) w of
           Inl e \<Rightarrow> (Inl e, w)
         | Inr u \<Rightarrow>
        (case batch_phase a w of
           (Inl e, w1) \<Rightarrow> (Inl e, w1)
         | (Inr (retrieved, uploaded_uris), w1) \<Rightarrow>
             if uploaded_uris = [] then (Inl (SystemExit 1), w1)
             else load_each bq_project (args_bq_dataset a) (args_taxi_type a @ ''_tripdata'')
                    partition_field schema (args_write_disposition a) (sort uploaded_uris)
                    w1))))))"
  unfolding main_def batch_phase_def Let_def
  by (simp split: sum.splits split del: if_split)

lemma batch_phase_months_error:
  "months_from_args (args_months a) = Inl e \<Longrightarrow> batch_phase a w = (Inl e, w)"
  by (simp add: batch_phase_def)

lemma main_after_bootstrap:
  assumes "bootstrap_ok a w"
  shows "\<exists>bq_project partition_field schema.
           main a w =
             (case batch_phase a w of
                (Inl e, w1) \<Rightarrow> (Inl e, w1)
              | (Inr (retrieved, uploaded_uris), w1) \<Rightarrow>
                  if uploaded_uris = [] then (Inl (SystemExit 1), w1)
                  else load_each bq_project (args_bq_dataset a)
                         (args_taxi_type a @ ''_tripdata'') partition_field
                         schema (args_write_disposition a) (sort uploaded_uris) w1)"
proof -
  define bqp where
    "bqp = (if args_bq_project a = [] then client_project w else args_bq_project a)"
  from assms obtain pf sc where
    "get_partition_field (args_taxi_type a) = Inr pf" "get_bq_schema (args_taxi_type a) = Inr sc"
    "ensure_bucket (args_bucket a) w = Inr ()"
    "ensure_bq_dataset bqp (args_bq_dataset a) (args_bq_location a) w = Inr ()"
    unfolding bootstrap_ok_def bqp_def [symmetric]
    by (metis (full_types) old.unit.exhaust sum.collapse(2))
  then have "main a w =
             (case batch_phase a w of
                (Inl e, w1) \<Rightarrow> (Inl e, w1)
              | (Inr (retrieved, uploaded_uris), w1) \<Rightarrow>
                  if uploaded_uris = [] then (Inl (SystemExit 1), w1)
                  else load_each bqp (args_bq_dataset a) (args_taxi_type a @ ''_tripdata'') pf
                         sc (args_write_disposition a) (sort uploaded_uris) w1)"
    unfolding main_unfolded Let_def bqp_def [symmetric]
    by (simp add: batch_phase_months_error split: sum.splits split del: if_split)
  then show ?thesis by blast
qed

lemma main_bootstrap_fails:
  assumes "\<not> bootstrap_ok a w"
  shows "\<exists>e. main a w = (Inl e, w) \<and> e \<noteq> SystemExit 0"
proof -
  define bqp where
    "bqp = (if args_bq_project a = [] then client_project w else args_bq_project a)"
  note m = main_unfolded [of a w, unfolded Let_def, folded bqp_def]
  show ?thesis
  proof (cases "get_partition_field (args_taxi_type a)")
    case (Inl e)
    with m show ?thesis by (auto dest: get_partition_field_error)
  next
    case pf: (Inr partition_field)
    show ?thesis
    proof (cases "get_bq_schema (args_taxi_type a)")
      case (Inl e)
      with m pf show ?thesis by (auto dest: get_bq_schema_error)
    next
      case sc: (Inr schema)
      show ?thesis
      proof (cases "months_from_args (args_months a)")
        case (Inl e)
        with m pf sc show ?thesis by (auto dest: months_from_args_error)
      next
        case ms: (Inr months)
        show ?thesis
        proof (cases "ensure_bucket (args_bucket a) w")
          case (Inl e)
          with m pf sc ms show ?thesis by (auto dest: ensure_bucket_error)
        next
          case eb: (Inr u)
          show ?thesis
          proof (cases "ensure_bq_dataset bqp (args_bq_dataset a) (args_bq_location a) w")
            case (Inl e)
            with m pf sc ms eb show ?thesis by (auto dest: ensure_bq_dataset_error)
          next
            case (Inr u')
            with pf sc eb assms show ?thesis
              by (simp add: bootstrap_ok_def bqp_def)
          qed
        qed
      qed
    qed
  qed
qed


lemma main_after_batches:
  assumes "bootstrap_ok a w" "batch_phase a w = (Inr (retrieved, uploaded_uris), w1)"
  shows "fst (main a w) =
           (if uploaded_uris = [] then Inl (SystemExit 1)
            else if loads_succeed (length uploaded_uris) w1 then Inr ()
            else Inl CollaboratorError)"
    and "uploaded_uris = [] \<Longrightarrow> snd (main a w) = w1"
proof -
  from main_after_bootstrap [OF assms(1)] assms(2) obtain bqp pf sc where
    m: "main a w = (if uploaded_uris = [] then (Inl (SystemExit 1), w1)
         else load_each bqp (args_bq_dataset a) (args_taxi_type a @ ''_tripdata'') pf sc
                (args_write_disposition a) (sort uploaded_uris) w1)"
    by auto
  have "fst (load_each bqp (args_bq_dataset a) (args_taxi_type a @ ''_tripdata'') pf sc
                (args_write_disposition a) (sort uploaded_uris) w1)
     = (if loads_succeed (length uploaded_uris) w1 then Inr () else Inl CollaboratorError)"
    using load_each_loads [of bqp "args_bq_dataset a" "args_taxi_type a @ ''_tripdata''" pf sc
        "args_write_disposition a" "sort uploaded_uris" w1]
    by (auto simp: loads_succeed_def split: option.splits)
  with m show "fst (main a w) =
           (if uploaded_uris = [] then Inl (SystemExit 1)
            else if loads_succeed (length uploaded_uris) w1 then Inr ()
            else Inl CollaboratorError)"
    by simp
  from m show "uploaded_uris = [] \<Longrightarrow> snd (main a w) = w1" by simp
qed

lemma main_exit_zero:
  assumes "exit_code (fst (main a w)) = 0"
  shows "bootstrap_ok a w
       \<and> (\<exists>retrieved uploaded_uris w1.
             batch_phase a w = (Inr (retrieved, uploaded_uris), w1)
             \<and> retrieved \<noteq> [] \<and> uploaded_uris \<noteq> []
             \<and> loads_succeed (length uploaded_uris) w1)"
proof -
  have boot: "bootstrap_ok a w"
  proof (rule ccontr)
    assume "\<not> bootstrap_ok a w"
    from main_bootstrap_fails [OF this] obtain e where "main a w = (Inl e, w)" "e \<noteq> SystemExit 0"
      by blast
    with assms show False by (auto dest: exit_code_error)
  qed
  obtain r w1 where b: "batch_phase a w = (r, w1)" by (cases "batch_phase a w")
  show ?thesis
  proof (cases r)
    case (Inl e)
    with b have "e \<noteq> SystemExit 0" by (auto dest: batch_phase_error)
    moreover from main_after_bootstrap [OF boot] b Inl have "fst (main a w) = Inl e" by auto
    ultimately show ?thesis using assms by (auto dest: exit_code_error)
  next
    case (Inr staged)
    obtain retrieved uploaded_uris where staged: "staged = (retrieved, uploaded_uris)"
      by (cases staged)
    with b Inr have bp: "batch_phase a w = (Inr (retrieved, uploaded_uris), w1)" by simp
    note m = main_after_batches(1) [OF boot bp]
    from m assms have up: "uploaded_uris \<noteq> []" by (auto simp: exit_code_def)
    with m assms have "loads_succeed (length uploaded_uris) w1"
      by (auto simp: exit_code_def split: if_splits)
    moreover from up batch_phase_staged_retrieved [OF bp] have "retrieved \<noteq> []" by blast
    ultimately show ?thesis using boot bp up by blast
  qed
qed

lemma create_bucket_hw_error: "create_bucket_hw b w = Inl e \<Longrightarrow> e \<noteq> SystemExit 0"
  by (auto simp: create_bucket_hw_def split: if_splits lookup_reply.splits)

lemma main_hw_exit_zero:
  "exit_code (fst (main_hw BUCKET_NAME w)) = 0
     \<longleftrightarrow> create_bucket_hw BUCKET_NAME w = Inr () \<and> fst (downloads_hw MONTHS w) \<noteq> []"
proof (cases "create_bucket_hw BUCKET_NAME w")
  case (Inl e)
  then have "e \<noteq> SystemExit 0" by (rule create_bucket_hw_error)
  with Inl show ?thesis by (auto simp: main_hw_def dest: exit_code_error)
next
  case (Inr u)
  then show ?thesis
    by (simp add: main_hw_def exit_code_def case_prod_beta Let_def)
qed


text \<open>
  C7 as amended, process exit signal. The pipeline script exits with code zero only
  after a bootstrap that passed and a batch loop that retrieved and staged at least one
  item, with every load succeeding. After a bootstrap that passed it exits with code one
  when no item was retrieved or none was staged, and with code one when a load fails,
  which ends the run. The homework script exits with a code other than zero exactly
  when its bucket check fails or no file was retrieved: it exits with zero when files
  were retrieved and none was staged.
\<close>

theorem exit_signal:
  "(exit_code (fst (main a w)) = 0 \<longrightarrow>
      bootstrap_ok a w
      \<and> (\<exists>retrieved uploaded_uris w1.
            batch_phase a w = (Inr (retrieved, uploaded_uris), w1)
            \<and> retrieved \<noteq> [] \<and> uploaded_uris \<noteq> []
            \<and> loads_succeed (length uploaded_uris) w1))
   \<and> (bootstrap_ok a w \<and> batch_phase a w = (Inr (retrieved, uploaded_uris), w1) \<longrightarrow>
        (retrieved = [] \<or> uploaded_uris = [] \<longrightarrow>
           fst (main a w) = Inl (SystemExit 1) \<and> exit_code (fst (main a w)) = 1)
        \<and> (uploaded_uris \<noteq> [] \<and> loads_succeed (length uploaded_uris) w1 \<longrightarrow>
             fst (main a w) = Inr () \<and> exit_code (fst (main a w)) = 0)
        \<and> (uploaded_uris \<noteq> [] \<and> \<not> loads_succeed (length uploaded_uris) w1 \<longrightarrow>
             fst (main a w) = Inl CollaboratorError \<and> exit_code (fst (main a w)) = 1))
   \<and> (exit_code (fst (main_hw BUCKET_NAME w)) = 0
        \<longleftrightarrow> create_bucket_hw BUCKET_NAME w = Inr () \<and> fst (downloads_hw MONTHS w) \<noteq> [])"
proof -
  have zero: "bootstrap_ok a w
      \<and> (\<exists>retrieved uploaded_uris w1.
            batch_phase a w = (Inr (retrieved, uploaded_uris), w1)
            \<and> retrieved \<noteq> [] \<and> uploaded_uris \<noteq> []
            \<and> loads_succeed (length uploaded_uris) w1)"
    if "exit_code (fst (main a w)) = 0"
    using that by (rule main_exit_zero)
  have after: "(retrieved = [] \<or> uploaded_uris = [] \<longrightarrow>
           fst (main a w) = Inl (SystemExit 1) \<and> exit_code (fst (main a w)) = 1)
        \<and> (uploaded_uris \<noteq> [] \<and> loads_succeed (length uploaded_uris) w1 \<longrightarrow>
             fst (main a w) = Inr () \<and> exit_code (fst (main a w)) = 0)
        \<and> (uploaded_uris \<noteq> [] \<and> \<not> loads_succeed (length uploaded_uris) w1 \<longrightarrow>
             fst (main a w) = Inl CollaboratorError \<and> exit_code (fst (main a w)) = 1)"
    if run: "bootstrap_ok a w \<and> batch_phase a w = (Inr (retrieved, uploaded_uris), w1)"
  proof -
    from run have m: "fst (main a w) =
           (if uploaded_uris = [] then Inl (SystemExit 1)
            else if loads_succeed (length uploaded_uris) w1 then Inr ()
            else Inl CollaboratorError)"
      by (intro main_after_batches(1)) simp_all
    from run have "retrieved = [] \<longrightarrow> uploaded_uris = []"
      by (auto dest: batch_phase_staged_retrieved)
    with m show ?thesis by (auto simp: exit_code_def)
  qed
  from zero after main_hw_exit_zero [of BUCKET_NAME w] show ?thesis by blast
qed

lemma example_run_exit: "exit_code (fst (main example_args fresh_world)) = 0"
  by code_simp

theorem exit_signal_witness:
  "exit_code (fst (main example_args fresh_world)) = 0
   \<and> bootstrap_ok example_args fresh_world
   \<and> (\<exists>retrieved uploaded_uris w1.
         batch_phase example_args fresh_world = (Inr (retrieved, uploaded_uris), w1)
         \<and> retrieved \<noteq> [] \<and> uploaded_uris \<noteq> []
         \<and> loads_succeed (length uploaded_uris) w1)"
  using exit_signal [of example_args fresh_world] example_run_exit by blast

theorem exit_signal_counterexample:
  "fst (downloads_hw MONTHS lossy_world) = [''./yellow_tripdata_2024-01.parquet'']
   \<and> fst (snd (main_hw ''bucket'' lossy_world)) = 0
   \<and> fst (main_hw ''bucket'' lossy_world) = Inr ()
   \<and> exit_code (fst (main_hw ''bucket'' lossy_world)) = 0"
  by code_simp

text \<open>
  C9, empty period expression. For a months argument made of white space and commas
  only, \<open>months_from_args\<close> returns the empty list; the batch loop then has no batch,
  retrieves and stages nothing and leaves the world as it is, and \<open>main\<close> issues no
  upload and no load and never ends with exit code zero: after a bootstrap that passed
  it ends with \<open>sys.exit(1)\<close>, the exit for a run that staged nothing.
\<close>

theorem blank_months_no_work:
  assumes "\<forall>c \<in> set (args_months a). is_space c \<or> c = CHR '',''"
  shows "months_from_args (args_months a) = Inr []
       \<and> batch_phase a w = (Inr ([], []), w)
       \<and> uploads_of (calls (snd (main a w))) = uploads_of (calls w)
       \<and> loads_of (calls (snd (main a w))) = loads_of (calls w)
       \<and> exit_code (fst (main a w)) \<noteq> 0
       \<and> (bootstrap_ok a w \<longrightarrow> fst (main a w) = Inl (SystemExit 1))"
proof -
  from assms have months: "months_from_args (args_months a) = Inr []"
    by (rule months_from_args_blank_lemma)
  then have bp: "batch_phase a w = (Inr ([], []), w)"
    by (simp add: batch_phase_def blank_batches)
  have "snd (main a w) = w \<and> exit_code (fst (main a w)) \<noteq> 0
       \<and> (bootstrap_ok a w \<longrightarrow> fst (main a w) = Inl (SystemExit 1))"
  proof (cases "bootstrap_ok a w")
    case True
    from main_after_batches [OF True bp] True show ?thesis by (simp add: exit_code_def)
  next
    case False
    from main_bootstrap_fails [OF False] obtain e where "main a w = (Inl e, w)"
      "e \<noteq> SystemExit 0"
      by blast
    with False show ?thesis by (auto dest: exit_code_error)
  qed
  with months bp show ?thesis by simp
qed

lemma example_bootstrap:
  "bootstrap_ok (example_args\<lparr>args_months := [CHR 0xA0, CHR '' '', CHR '','', CHR 0x85]\<rparr>)
     fresh_world"
  by code_simp

theorem blank_months_no_work_witness:
  "list_all (\<lambda>c. is_space c \<or> c = CHR '','')
     (args_months (example_args\<lparr>args_months := [CHR 0xA0, CHR '' '', CHR '','', CHR 0x85]\<rparr>))
   \<and> bootstrap_ok (example_args\<lparr>args_months := [CHR 0xA0, CHR '' '', CHR '','', CHR 0x85]\<rparr>)
        fresh_world
   \<and> months_from_args [CHR 0xA0, CHR '' '', CHR '','', CHR 0x85] = Inr []
   \<and> fst (main (example_args\<lparr>args_months := [CHR 0xA0, CHR '' '', CHR '','', CHR 0x85]\<rparr>)
             fresh_world)
       = Inl (SystemExit 1)"
proof -
  have blank: "\<forall>c \<in> set (args_months
        (example_args\<lparr>args_months := [CHR 0xA0, CHR '' '', CHR '','', CHR 0x85]\<rparr>)).
      is_space c \<or> c = CHR '',''"
    by (simp add: is_space_def)
  from blank_months_no_work [OF blank, of fresh_world] example_bootstrap blank
  show ?thesis by simp
qed

section \<open>The load order of \<open>main\<close>\<close>

lemma download_file_loads:
  "download_file t y m w = (r, w1) \<Longrightarrow> loads_of (calls w1) = loads_of (calls w)"
  by (auto simp: download_file_def urlretrieve_def sleep_def log_call_def Let_def loads_of_append
      split: sum.splits if_splits fetch_reply.splits)

lemma submit_downloads_loads:
  "submit_downloads t y ms w = (rs, w1) \<Longrightarrow> loads_of (calls w1) = loads_of (calls w)"
proof (induction ms arbitrary: w rs w1)
  case Nil
  then show ?case by simp
next
  case (Cons m ms)
  obtain r w2 where d: "download_file t y m w = (r, w2)" by (cases "download_file t y m w")
  obtain rs' w3 where r: "submit_downloads t y ms w2 = (rs', w3)"
    by (cases "submit_downloads t y ms w2")
  from d r Cons.prems have "w1 = w3" by simp
  with Cons.IH [OF r] download_file_loads [OF d] show ?case by simp
qed

lemma upload_try_loads:
  assumes "upload_try fp b k w = (r, w1)"
  shows "loads_of (calls w1) = loads_of (calls w)"
  using assms by (cases rule: upload_try_cases) (simp_all add: loads_of_append)

lemma upload_attempts_loads:
  "upload_attempts n fp b k w = (r, w1) \<Longrightarrow> loads_of (calls w1) = loads_of (calls w)"
proof (induction n arbitrary: w)
  case 0
  then show ?case by simp
next
  case (Suc n)
  obtain r1 w2 where t: "upload_try fp b k w = (r1, w2)" by (cases "upload_try fp b k w")
  note step = upload_try_loads [OF t]
  show ?case
  proof (cases "\<exists>u. r1 = Inr (Some u)")
    case True
    with t Suc.prems have "w1 = w2" by auto
    with step show ?thesis by simp
  next
    case False
    with t Suc.prems have "upload_attempts n fp b k (sleep RetryBackoff w2) = (r, w1)"
      by (cases r1) (auto split: option.splits)
    from Suc.IH [OF this] step show ?thesis by (simp add: sleep_frame loads_of_append)
  qed
qed

lemma submit_uploads_loads:
  "submit_uploads fps b p w = (rs, w1) \<Longrightarrow> loads_of (calls w1) = loads_of (calls w)"
proof (induction fps arbitrary: w rs w1)
  case Nil
  then show ?case by simp
next
  case (Cons fp fps)
  obtain r w2 where u: "upload_to_gcs fp b p 3 w = (r, w2)" by (cases "upload_to_gcs fp b p 3 w")
  obtain rs' w3 where r: "submit_uploads fps b p w2 = (rs', w3)"
    by (cases "submit_uploads fps b p w2")
  from u have "loads_of (calls w2) = loads_of (calls w)"
    by (auto simp: upload_to_gcs_def dest: upload_attempts_loads)
  moreover from u r Cons.prems have "w1 = w3" by simp
  ultimately show ?case using Cons.IH [OF r] by simp
qed

lemma process_batches_loads:
  "process_batches a batches acc w = (r, w1) \<Longrightarrow> loads_of (calls w1) = loads_of (calls w)"
proof (induction batches arbitrary: acc w)
  case Nil
  then show ?case by simp
next
  case (Cons month_batch rest)
  obtain retrieved0 uploaded0 where acc: "acc = (retrieved0, uploaded0)" by (cases acc)
  obtain results w2 where d: "submit_downloads (args_taxi_type a) (args_year a) month_batch w
      = (results, w2)"
    by (cases "submit_downloads (args_taxi_type a) (args_year a) month_batch w")
  note dl = submit_downloads_loads [OF d]
  show ?case
  proof (cases "collect_results results []")
    case (Inl e)
    with d acc Cons.prems have "w1 = w2" by simp
    with dl show ?thesis by simp
  next
    case (Inr downloaded_files)
    show ?thesis
    proof (cases "downloaded_files = []")
      case True
      with d Inr acc Cons.prems
      have "process_batches a rest (retrieved0, uploaded0) w2 = (r, w1)" by simp
      from Cons.IH [OF this] dl show ?thesis by simp
    next
      case False
      obtain staged w3 where u: "submit_uploads downloaded_files (args_bucket a)
          (args_gcs_prefix a) w2 = (staged, w3)"
        by (cases "submit_uploads downloaded_files (args_bucket a) (args_gcs_prefix a) w2")
      note ul = submit_uploads_loads [OF u]
      show ?thesis
      proof (cases "collect_results staged uploaded0")
        case (Inl e)
        with d \<open>collect_results results [] = Inr downloaded_files\<close> False u acc Cons.prems
        have "w1 = w3" by simp
        with dl ul show ?thesis by simp
      next
        case (Inr uris)
        with d \<open>collect_results results [] = Inr downloaded_files\<close> False u acc Cons.prems
        have "process_batches a rest (retrieved0 @ downloaded_files, uris) w3 = (r, w1)"
          by simp
        from Cons.IH [OF this] dl ul show ?thesis by simp
      qed
    qed
  qed
qed

lemma batch_phase_loads:
  "batch_phase a w = (r, w1) \<Longrightarrow> loads_of (calls w1) = loads_of (calls w)"
  by (auto simp: batch_phase_def split: sum.splits dest: process_batches_loads)

lemma main_loads:
  assumes "bootstrap_ok a w" "batch_phase a w = (Inr (retrieved, uploaded_uris), w1)"
  shows "loads_of (calls (snd (main a w)))
           = loads_of (calls w)
               @ (case first_failure (load_script w1) of
                    None \<Rightarrow> sort uploaded_uris
                  | Some i \<Rightarrow> take (Suc i) (sort uploaded_uris))"
proof -
  from main_after_bootstrap [OF assms(1)] assms(2) obtain bqp pf sc where
    m: "main a w = (if uploaded_uris = [] then (Inl (SystemExit 1), w1)
         else load_each bqp (args_bq_dataset a) (args_taxi_type a @ ''_tripdata'') pf sc
                (args_write_disposition a) (sort uploaded_uris) w1)"
    by auto
  note before = batch_phase_loads [OF assms(2)]
  show ?thesis
  proof (cases "uploaded_uris = []")
    case True
    with m before show ?thesis by (simp split: option.splits)
  next
    case False
    with m before
      load_each_loads [of bqp "args_bq_dataset a" "args_taxi_type a @ ''_tripdata''" pf sc
        "args_write_disposition a" "sort uploaded_uris" w1]
    show ?thesis by simp
  qed
qed


text \<open>
  C5 as amended, deterministic load order. In a run of \<open>main\<close> whose bootstrap passed,
  the load requests are the staged URIs in ascending order, one for each entry of
  \<open>uploaded_uris\<close> (a URI staged twice is loaded twice), whatever the order in which they
  were staged, up to and including the first load that fails, which ends the run; when
  no load fails they are all the entries, sorted, and when the entries are distinct
  each artifact has exactly one load.
\<close>

theorem bulk_load_sorted_order:
  assumes "bootstrap_ok a w" and "fst (batch_phase a w) = Inr (retrieved, uploaded_uris)"
  shows "loads_of (calls (snd (main a w)))
           = loads_of (calls w)
               @ (case first_failure (load_script (snd (batch_phase a w))) of
                    None \<Rightarrow> sort uploaded_uris
                  | Some i \<Rightarrow> take (Suc i) (sort uploaded_uris))
       \<and> sorted (sort uploaded_uris)
       \<and> mset (sort uploaded_uris) = mset uploaded_uris
       \<and> (mset staged_in_other_order = mset uploaded_uris \<longrightarrow>
            sort staged_in_other_order = sort uploaded_uris)
       \<and> (distinct uploaded_uris \<longrightarrow>
            distinct (sort uploaded_uris) \<and> set (sort uploaded_uris) = set uploaded_uris)
       \<and> (uploaded_uris = [''b'', ''a'', ''c'']
            \<and> first_failure (load_script (snd (batch_phase a w))) = None \<longrightarrow>
            loads_of (calls (snd (main a w))) = loads_of (calls w) @ [''a'', ''b'', ''c''])"
proof -
  from assms(2) have bp: "batch_phase a w = (Inr (retrieved, uploaded_uris), snd (batch_phase a w))"
    by (simp add: prod_eq_iff)
  note loads = main_loads [OF assms(1) bp]
  have other: "sort staged_in_other_order = sort uploaded_uris"
    if "mset staged_in_other_order = mset uploaded_uris"
    using that by (intro properties_for_sort) simp_all
  have example: "loads_of (calls (snd (main a w))) = loads_of (calls w) @ [''a'', ''b'', ''c'']"
    if "uploaded_uris = [''b'', ''a'', ''c''] 
        \<and> first_failure (load_script (snd (batch_phase a w))) = None"
    using loads that by (simp add: sort_example)
  from loads other example show ?thesis by simp
qed

lemma unordered_run:
  "bootstrap_ok (example_args\<lparr>args_months := ''3,1,2''\<rparr>) fresh_world"
  "fst (batch_phase (example_args\<lparr>args_months := ''3,1,2''\<rparr>) fresh_world)
     = Inr ([''./green_tripdata_2020-03.csv.gz'', ''./green_tripdata_2020-01.csv.gz'',
             ''./green_tripdata_2020-02.csv.gz''],
            [''gs://bucket/green_tripdata_2020-03.csv.gz'',
             ''gs://bucket/green_tripdata_2020-01.csv.gz'',
             ''gs://bucket/green_tripdata_2020-02.csv.gz''])"
  "first_failure (load_script (snd (batch_phase (example_args\<lparr>args_months := ''3,1,2''\<rparr>)
      fresh_world))) = None"
  "sort [''gs://bucket/green_tripdata_2020-03.csv.gz'',
         ''gs://bucket/green_tripdata_2020-01.csv.gz'',
         ''gs://bucket/green_tripdata_2020-02.csv.gz'']
     = [''gs://bucket/green_tripdata_2020-01.csv.gz'',
        ''gs://bucket/green_tripdata_2020-02.csv.gz'',
        ''gs://bucket/green_tripdata_2020-03.csv.gz'']"
  by code_simp+

theorem bulk_load_sorted_order_witness:
  "bootstrap_ok (example_args\<lparr>args_months := ''3,1,2''\<rparr>) fresh_world
   \<and> fst (batch_phase (example_args\<lparr>args_months := ''3,1,2''\<rparr>) fresh_world)
       = Inr ([''./green_tripdata_2020-03.csv.gz'', ''./green_tripdata_2020-01.csv.gz'',
               ''./green_tripdata_2020-02.csv.gz''],
              [''gs://bucket/green_tripdata_2020-03.csv.gz'',
               ''gs://bucket/green_tripdata_2020-01.csv.gz'',
               ''gs://bucket/green_tripdata_2020-02.csv.gz''])
   \<and> loads_of (calls (snd (main (example_args\<lparr>args_months := ''3,1,2''\<rparr>) fresh_world)))
       = [''gs://bucket/green_tripdata_2020-01.csv.gz'',
          ''gs://bucket/green_tripdata_2020-02.csv.gz'',
          ''gs://bucket/green_tripdata_2020-03.csv.gz'']"
proof -
  have start: "loads_of (calls fresh_world) = []" by (simp add: fresh_world_def)
  from bulk_load_sorted_order [OF unordered_run(1) unordered_run(2)]
  have "loads_of (calls (snd (main (example_args\<lparr>args_months := ''3,1,2''\<rparr>) fresh_world)))
       = [''gs://bucket/green_tripdata_2020-01.csv.gz'',
          ''gs://bucket/green_tripdata_2020-02.csv.gz'',
          ''gs://bucket/green_tripdata_2020-03.csv.gz'']"
    unfolding unordered_run(3) unordered_run(4) start by simp
  with unordered_run(1) unordered_run(2) show ?thesis by blast
qed

theorem bulk_load_one_per_artifact_counterexample:
  "fst (batch_phase (example_args\<lparr>args_months := ''1,1''\<rparr>) fresh_world)
     = Inr ([''./green_tripdata_2020-01.csv.gz'', ''./green_tripdata_2020-01.csv.gz''],
            [''gs://bucket/green_tripdata_2020-01.csv.gz'',
             ''gs://bucket/green_tripdata_2020-01.csv.gz''])
   \<and> fst (main (example_args\<lparr>args_months := ''1,1''\<rparr>) fresh_world) = Inr ()
   \<and> loads_of (calls (snd (main (example_args\<lparr>args_months := ''1,1''\<rparr>) fresh_world)))
       = [''gs://bucket/green_tripdata_2020-01.csv.gz'',
          ''gs://bucket/green_tripdata_2020-01.csv.gz'']
   \<and> fst (batch_phase example_args (fresh_world\<lparr>load_script := [True]\<rparr>))
       = Inr ([''./green_tripdata_2020-01.csv.gz'', ''./green_tripdata_2020-02.csv.gz''],
              [''gs://bucket/green_tripdata_2020-01.csv.gz'',
               ''gs://bucket/green_tripdata_2020-02.csv.gz''])
   \<and> loads_of (calls (snd (main example_args (fresh_world\<lparr>load_script := [True]\<rparr>))))
       = [''gs://bucket/green_tripdata_2020-01.csv.gz'']"
  by code_simp

end
